theory Spec2Isabelle
  imports Complex_Main "HOL-Library.Multiset" "HOL-Library.Sublist"
begin

section \<open>Data model of the reports page\<close>

text \<open>
  The reports page aggregates the audit records of every configured chain
  (\<open>fetchAllChainAudits\<close>) and filters them for display (\<open>getFilteredReports\<close>).
  The profile page runs the same fetch for the records of one auditor (\<open>fetchUserStats\<close>).
  Numbers that the page obtains with \<open>Number(...)\<close> from on-chain unsigned integers are
  natural numbers here; strings are character lists.
\<close>

type_synonym ChainKey = string

text \<open>\<open>interface AuditReport\<close>.\<close>

record AuditReport =
  contractHash :: string
  stars :: nat
  summary :: string
  auditor :: string
  timestamp :: nat
  chain :: ChainKey

text \<open>\<open>interface FilterState\<close>; the field \<open>chain\<close> is \<open>chainSel\<close> here, since
  \<open>AuditReport\<close> has a field of that name.\<close>

datatype DateRange = RangeAll | RangeDay | RangeWeek | RangeMonth

record FilterState =
  search :: string
  chainSel :: string
  dateRange :: DateRange
  minStars :: nat

text \<open>\<open>interface ChainConfig\<close>, with the fields the fetch reads or logs.\<close>

record ChainConfig =
  chainId :: string
  chainName :: string
  rpcUrls :: "string list"

text \<open>The one entry of \<open>CHAIN_CONFIG\<close>, in \<open>Object.entries\<close> order.\<close>

definition CHAIN_CONFIG :: "(ChainKey \<times> ChainConfig) list" where
  "CHAIN_CONFIG =
     [(''monadTestnet'',
       \<lparr>chainId = ''0x279F'', chainName = ''Monad Testnet'',
        rpcUrls = [''https://monad-testnet.g.alchemy.com/v2/cPagatQQ9SL_dZvqKBJYoc_dG2cHbmcA'',
                   ''https://testnet-rpc.monad.xyz'']\<rparr>)]"

subsection \<open>Errors and promises\<close>

text \<open>
  A thrown \<open>Error\<close> object: its \<open>code\<close> (the empty string when there is none) and its
  \<open>message\<close>.
\<close>

record js_error =
  code :: string
  message :: string

definition Error :: "string \<Rightarrow> js_error" where
  "Error msg = \<lparr>code = [], message = msg\<rparr>"

text \<open>
  Reading \<open>.length\<close> of \<open>undefined\<close> throws a \<open>TypeError\<close>. The wording of its message
  is the engine's; it has no code and none of the texts that the \<open>catch\<close> block looks for.
\<close>

definition TypeError_length :: js_error where
  "TypeError_length = Error ''Cannot read properties of undefined (reading length)''"

text \<open>
  A contract call is a promise: it fulfils or rejects after some milliseconds, or never
  settles. \<open>Promise.race\<close> against a \<open>setTimeout\<close> rejection of \<open>ms\<close> milliseconds
  settles with whichever comes first; the result carries the time awaited.
\<close>

datatype 'a promise = Fulfils nat 'a | Rejects nat js_error | Pending

definition race :: "'a promise \<Rightarrow> nat \<Rightarrow> string \<Rightarrow> nat \<times> (js_error + 'a)" where
  "race p ms msg =
     (case p of
        Fulfils t v \<Rightarrow> if t < ms then (t, Inr v) else (ms, Inl (Error msg))
      | Rejects t e \<Rightarrow> if t < ms then (t, Inl e) else (ms, Inl (Error msg))
      | Pending \<Rightarrow> (ms, Inl (Error msg)))"

subsection \<open>Strings\<close>

text \<open>\<open>s.includes(t)\<close>: \<open>t\<close> occurs in \<open>s\<close> as a contiguous run.\<close>

definition startsWith :: "string \<Rightarrow> string \<Rightarrow> bool" where
  "startsWith s t = (take (length t) s = t)"

fun includes_str :: "string \<Rightarrow> string \<Rightarrow> bool" where
  "includes_str [] t = (t = [])"
| "includes_str (c # s) t = (startsWith (c # s) t \<or> includes_str s t)"

text \<open>\<open>s.toLowerCase()\<close> on ASCII text (addresses and hashes are hexadecimal).\<close>

definition lower_char :: "char \<Rightarrow> char" where
  "lower_char c =
     (let n = (of_char c :: nat) in if 65 \<le> n \<and> n \<le> 90 then char_of (n + 32) else c)"

definition toLowerCase :: "string \<Rightarrow> string" where
  "toLowerCase s = map lower_char s"

subsection \<open>The registry's answer\<close>

text \<open>
  The object \<open>getAllAudits\<close> resolves to. A field is \<open>None\<close> when the property is not
  an array (\<open>undefined\<close>). The field \<open>stars\<close> is \<open>starsArr\<close> here, since \<open>AuditReport\<close>
  has a field of that name.
\<close>

record AllAudits =
  contractHashes :: "string list option"
  starsArr :: "nat list option"
  summaries :: "string list option"
  auditors :: "string list option"
  timestamps :: "nat list option"

datatype js_result = Null | Obj AllAudits

text \<open>
  What one endpoint does in one round: the promise of \<open>getTotalContracts()\<close> and the
  promise of \<open>getAllAudits(start, limit)\<close>.
\<close>

record rpc_behaviour =
  getTotalContracts :: "nat promise"
  getAllAudits :: "nat \<Rightarrow> nat \<Rightarrow> js_result promise"

text \<open>The world: the behaviour of the endpoint at a position of \<open>rpcUrls\<close>, for a chain
  and a value of \<open>retryCount\<close>.\<close>

type_synonym world = "ChainKey \<Rightarrow> nat \<Rightarrow> nat \<Rightarrow> rpc_behaviour"

subsection \<open>State and effects\<close>

text \<open>
  Every console line, contract call and timer of \<open>fetchAllChainAudits\<close> is an event of
  the trace, in program order. The fetch of the profile page (\<open>fetchUserStats\<close>) writes
  the same lines and one more, the total at its end.
\<close>

datatype event =
    LogAttemptChain ChainKey
  | LogNoAddress ChainKey
  | LogAttemptRpc string nat nat
  | Call_getTotalContracts string string nat
  | LogTotal ChainKey nat
  | LogNoContracts ChainKey
  | Call_getAllAudits string string nat nat nat
  | Sleep nat
  | LogProcessed nat ChainKey
  | WarnRpcFailed string string
  | LogError ChainKey js_error
  | LogRetry ChainKey nat
  | LogFailed ChainKey nat
  | LogTotalAudits nat

record state =
  allAudits :: "AuditReport list"
  success :: bool
  trace :: "event list"

definition emit :: "event \<Rightarrow> state \<Rightarrow> state" where
  "emit e st = st\<lparr>trace := trace st @ [e]\<rparr>"

definition push :: "AuditReport \<Rightarrow> state \<Rightarrow> state" where
  "push r st = st\<lparr>allAudits := allAudits st @ [r]\<rparr>"

text \<open>How a statement completes.\<close>

datatype completion = Normal | Break | Continue | is_Throw: Throw js_error

section \<open>fetchAllChainAudits\<close>

definition maxRetries :: nat where
  "maxRetries = 3"

definition baseDelay :: nat where
  "baseDelay = 2000"

definition batchSize :: nat where
  "batchSize = 50"

text \<open>\<open>xs.slice(i, j)\<close> for \<open>0 \<le> i \<le> j\<close>.\<close>

definition slice :: "'a list \<Rightarrow> nat \<Rightarrow> nat \<Rightarrow> 'a list" where
  "slice xs i j = take (j - i) (drop i xs)"

text \<open>
  The guard of the \<open>forEach\<close> callback at index \<open>actualIdx\<close>, evaluated left to right
  with short-circuit: \<open>Inl\<close> when a \<open>.length\<close> is read from \<open>undefined\<close>, \<open>Inr None\<close>
  when the guard is false, and otherwise the four values the record is built from.
\<close>

definition guard :: "AllAudits \<Rightarrow> nat \<Rightarrow> js_error + (nat \<times> string \<times> string \<times> nat) option" where
  "guard r actualIdx =
     (case starsArr r of None \<Rightarrow> Inl TypeError_length | Some ss \<Rightarrow>
      if \<not> actualIdx < length ss then Inr None else
      case summaries r of None \<Rightarrow> Inl TypeError_length | Some ms \<Rightarrow>
      if \<not> actualIdx < length ms then Inr None else
      case auditors r of None \<Rightarrow> Inl TypeError_length | Some as \<Rightarrow>
      if \<not> actualIdx < length as then Inr None else
      case timestamps r of None \<Rightarrow> Inl TypeError_length | Some ts \<Rightarrow>
      if \<not> actualIdx < length ts then Inr None else
      Inr (Some (ss ! actualIdx, ms ! actualIdx, as ! actualIdx, ts ! actualIdx)))"

text \<open>\<open>batch.forEach((hash, idx) => ...)\<close>, from position \<open>idx\<close> of the batch on.\<close>

fun forEach :: "ChainKey \<Rightarrow> AllAudits \<Rightarrow> nat \<Rightarrow> nat \<Rightarrow> string list \<Rightarrow> state \<Rightarrow> state \<times> completion" where
  "forEach chainKey r i idx [] st = (st, Normal)"
| "forEach chainKey r i idx (hash # batch) st =
     (case guard r (i + idx) of
        Inl e \<Rightarrow> (st, Throw e)
      | Inr None \<Rightarrow> forEach chainKey r i (idx + 1) batch st
      | Inr (Some (s, m, a, t)) \<Rightarrow>
          forEach chainKey r i (idx + 1) batch
            (push \<lparr>contractHash = hash, stars = s, summary = m, auditor = a,
                   timestamp = t, chain = chainKey\<rparr> st))"

text \<open>The loop \<open>for (let i = 0; i < contractHashes.length; i += batchSize)\<close>.\<close>

function for_batches :: "ChainKey \<Rightarrow> AllAudits \<Rightarrow> string list \<Rightarrow> nat \<Rightarrow> state \<Rightarrow> state \<times> completion" where
  "for_batches chainKey r hashes i st =
     (if i < length hashes then
        (let (st1, c) = forEach chainKey r i 0 (slice hashes i (i + batchSize)) st in
           if is_Throw c then (st1, c)
           else for_batches chainKey r hashes (i + batchSize) (emit (Sleep 10) st1))
      else (st, Normal))"
  by pat_completeness auto
termination
  by (relation "measure (\<lambda>(chainKey, r, hashes, i, st). length hashes - i)")
     (auto simp: batchSize_def)

text \<open>
  The body of the \<open>try\<close> block for one endpoint. Building the provider and the contract
  object makes no call; an error there is a rejection of the count query. A string
  element \<open>m\<close> of \<open>summaries\<close> satisfies \<open>(m || '') = m\<close>, so the record takes it as it is.
\<close>

definition try_body :: "ChainKey \<Rightarrow> string \<Rightarrow> rpc_behaviour \<Rightarrow> nat \<Rightarrow> string \<Rightarrow> state \<Rightarrow> state \<times> completion" where
  "try_body chainKey contractAddress rpc retryCount rpcUrl st =
     (let st1 = emit (LogAttemptRpc rpcUrl (retryCount + 1) maxRetries) st;
          (waited, totalContracts) = race (getTotalContracts rpc) 10000 ''getTotalContracts timeout'';
          st2 = emit (Call_getTotalContracts rpcUrl contractAddress waited) st1
      in case totalContracts of
           Inl e \<Rightarrow> (st2, Throw e)
         | Inr totalContractsNum \<Rightarrow>
             let st3 = emit (LogTotal chainKey totalContractsNum) st2 in
             if totalContractsNum = 0
             then ((emit (LogNoContracts chainKey) st3)\<lparr>success := True\<rparr>, Break)
             else
               let (waited2, result) =
                     race (getAllAudits rpc 0 totalContractsNum) 20000 ''getAllAudits timeout'';
                   st4 = emit (Call_getAllAudits rpcUrl contractAddress 0 totalContractsNum waited2) st3
               in case result of
                    Inl e \<Rightarrow> (st4, Throw e)
                  | Inr Null \<Rightarrow> (st4, Throw (Error ''Invalid response format''))
                  | Inr (Obj r) \<Rightarrow>
                      (case contractHashes r of
                         None \<Rightarrow> (st4, Throw (Error ''Invalid response format''))
                       | Some hashes \<Rightarrow>
                           (let (st5, c) = for_batches chainKey r hashes 0 st4 in
                              if is_Throw c then (st5, c)
                              else ((emit (LogProcessed (length hashes) chainKey) st5)\<lparr>success := True\<rparr>,
                                    Break))))"

text \<open>The test of the \<open>catch\<close> block.\<close>

definition isRpcError :: "js_error \<Rightarrow> bool" where
  "isRpcError e =
     (code e = ''SERVER_ERROR'' \<or>
      (message e \<noteq> [] \<and>
       (includes_str (message e) ''503'' \<or>
        includes_str (message e) ''timeout'' \<or>
        includes_str (message e) ''network error'')))"

text \<open>The \<open>try\<close> statement with its \<open>catch\<close>.\<close>

definition try_catch :: "ChainKey \<Rightarrow> string \<Rightarrow> rpc_behaviour \<Rightarrow> nat \<Rightarrow> string \<Rightarrow> state \<Rightarrow> state \<times> completion" where
  "try_catch chainKey contractAddress rpc retryCount rpcUrl st =
     (case try_body chainKey contractAddress rpc retryCount rpcUrl st of
        (st1, Throw e) \<Rightarrow>
          if isRpcError e then (emit (WarnRpcFailed rpcUrl (message e)) st1, Continue)
          else (emit (LogError chainKey e) st1, Normal)
      | (st1, c) \<Rightarrow> (st1, c))"

text \<open>\<open>for (const rpcUrl of chainData.rpcUrls)\<close>, from position \<open>n\<close> of the list on.\<close>

fun for_rpcUrls :: "ChainKey \<Rightarrow> string \<Rightarrow> world \<Rightarrow> nat \<Rightarrow> nat \<Rightarrow> string list \<Rightarrow> state \<Rightarrow> state \<times> completion" where
  "for_rpcUrls chainKey contractAddress w retryCount n [] st = (st, Normal)"
| "for_rpcUrls chainKey contractAddress w retryCount n (rpcUrl # rest) st =
     (let (st1, c) = try_catch chainKey contractAddress (w chainKey retryCount n) retryCount rpcUrl st in
        if c = Break then (st1, Normal)
        else if is_Throw c then (st1, c)
        else for_rpcUrls chainKey contractAddress w retryCount (n + 1) rest st1)"

text \<open>\<open>while (!success && retryCount < maxRetries)\<close>.\<close>

function while_retry :: "ChainKey \<Rightarrow> string \<Rightarrow> world \<Rightarrow> string list \<Rightarrow> nat \<Rightarrow> state \<Rightarrow> state \<times> completion" where
  "while_retry chainKey contractAddress w urls retryCount st =
     (if \<not> success st \<and> retryCount < maxRetries then
        (let (st1, c) = for_rpcUrls chainKey contractAddress w retryCount 0 urls st in
           if is_Throw c then (st1, c)
           else if \<not> success st1 then
               (if retryCount + 1 < maxRetries then
                  while_retry chainKey contractAddress w urls (retryCount + 1)
                    (emit (Sleep (baseDelay * 2 ^ (retryCount + 1)))
                       (emit (LogRetry chainKey (baseDelay * 2 ^ (retryCount + 1))) st1))
                else while_retry chainKey contractAddress w urls (retryCount + 1) st1)
             else while_retry chainKey contractAddress w urls retryCount st1)
      else (st, Normal))"
  by pat_completeness auto
termination
  by (relation "measure (\<lambda>(chainKey, contractAddress, w, urls, retryCount, st).
                  if success st then 0 else Suc (maxRetries - retryCount))")
     (auto simp: emit_def)

text \<open>
  The body of \<open>for (const [chainKey, chainData] of Object.entries(CHAIN_CONFIG))\<close>.
  \<open>CONTRACT_ADDRESSES\<close> is a parameter; \<open>!contractAddress\<close> holds for a missing entry
  and for the empty string.
\<close>

definition chain_body :: "(ChainKey \<rightharpoonup> string) \<Rightarrow> world \<Rightarrow> ChainKey \<times> ChainConfig \<Rightarrow> state \<Rightarrow> state \<times> completion" where
  "chain_body CONTRACT_ADDRESSES w entry st =
     (let chainKey = fst entry; chainData = snd entry;
          st1 = emit (LogAttemptChain chainKey) st
      in case CONTRACT_ADDRESSES chainKey of
           None \<Rightarrow> (emit (LogNoAddress chainKey) st1, Continue)
         | Some contractAddress \<Rightarrow>
             if contractAddress = [] then (emit (LogNoAddress chainKey) st1, Continue)
             else
               (let (st2, c) = while_retry chainKey contractAddress w (rpcUrls chainData) 0
                                 (st1\<lparr>success := False\<rparr>)
                in if is_Throw c then (st2, c)
                   else if \<not> success st2 then (emit (LogFailed chainKey maxRetries) st2, Normal)
                   else (st2, Normal)))"

fun for_chains :: "(ChainKey \<rightharpoonup> string) \<Rightarrow> world \<Rightarrow> (ChainKey \<times> ChainConfig) list \<Rightarrow> state \<Rightarrow> state \<times> completion" where
  "for_chains CONTRACT_ADDRESSES w [] st = (st, Normal)"
| "for_chains CONTRACT_ADDRESSES w (entry # rest) st =
     (let (st1, c) = chain_body CONTRACT_ADDRESSES w entry st in
        if is_Throw c then (st1, c)
        else for_chains CONTRACT_ADDRESSES w rest st1)"

text \<open>
  \<open>allAudits.sort((a, b) => b.timestamp - a.timestamp)\<close>: the stable sort of the
  language, by descending timestamp.
\<close>

definition sort_desc :: "AuditReport list \<Rightarrow> AuditReport list" where
  "sort_desc xs = sort_key (\<lambda>a. - int (timestamp a)) xs"

definition initial :: state where
  "initial = \<lparr>allAudits = [], success = False, trace = []\<rparr>"

text \<open>
  The whole function, over a configuration in \<open>Object.entries\<close> order: the final state
  (its \<open>allAudits\<close> is what \<open>setReports\<close> receives) and how the function completes.
  The loading flag and the error text of the page are not part of the state here.
\<close>

definition fetchAllChainAudits :: "(ChainKey \<times> ChainConfig) list \<Rightarrow> (ChainKey \<rightharpoonup> string) \<Rightarrow> world \<Rightarrow> state \<times> completion" where
  "fetchAllChainAudits config CONTRACT_ADDRESSES w =
     (let (st, c) = for_chains CONTRACT_ADDRESSES w config initial in
        if is_Throw c then (st, c)
        else (st\<lparr>allAudits := sort_desc (allAudits st)\<rparr>, Normal))"

section \<open>getFilteredReports\<close>

text \<open>The table \<open>ranges\<close>, in seconds; it is read only when the range is not \<open>all\<close>.\<close>

definition ranges :: "DateRange \<Rightarrow> nat" where
  "ranges d = (case d of RangeDay \<Rightarrow> 86400 | RangeWeek \<Rightarrow> 604800 | RangeMonth \<Rightarrow> 2592000 | RangeAll \<Rightarrow> 0)"

text \<open>
  The callback of \<open>reports.filter\<close>. \<open>nowMs\<close> is \<open>Date.now()\<close>; the test
  \<open>Date.now() / 1000 - timestamp > range\<close> is stated in whole milliseconds.
\<close>

definition keeps :: "nat \<Rightarrow> FilterState \<Rightarrow> AuditReport \<Rightarrow> bool" where
  "keeps nowMs filters report =
     (if search filters \<noteq> [] \<and>
         \<not> includes_str (toLowerCase (contractHash report)) (toLowerCase (search filters)) \<and>
         \<not> includes_str (toLowerCase (auditor report)) (toLowerCase (search filters))
      then False
      else if chainSel filters \<noteq> ''all'' \<and> chain report \<noteq> chainSel filters then False
      else if minStars filters > 0 \<and> stars report < minStars filters then False
      else if dateRange filters \<noteq> RangeAll \<and>
              int nowMs - 1000 * int (timestamp report) > 1000 * int (ranges (dateRange filters))
      then False
      else True)"

definition getFilteredReports :: "nat \<Rightarrow> FilterState \<Rightarrow> AuditReport list \<Rightarrow> AuditReport list" where
  "getFilteredReports nowMs filters reports = filter (keeps nowMs filters) reports"

section \<open>fetchUserStats\<close>

text \<open>
  The profile page fetches with the same loops as the reports page, and keeps a record
  only when its auditor is the connected wallet. \<open>interface UserAudit\<close> has no auditor;
  its fields carry the suffix \<open>_u\<close> here, since \<open>AuditReport\<close> has fields of the same names.
\<close>

record UserAudit =
  contractHash_u :: string
  stars_u :: nat
  summary_u :: string
  timestamp_u :: nat
  chain_u :: ChainKey

text \<open>
  \<open>interface AuditStats\<close>. The quotient \<open>totalStars / totalAudits\<close> is a real number
  here; the rounding of the machine's division is not modelled.
\<close>

record AuditStats =
  totalAudits :: nat
  averageStars :: real
  chainBreakdown :: "ChainKey \<rightharpoonup> nat"
  recentAudits :: "UserAudit list"

text \<open>
  The variables \<open>allAudits\<close>, \<open>chainCounts\<close>, \<open>totalStars\<close> and \<open>success\<close> of the
  function, and its trace.
\<close>

record user_state =
  allAudits_u :: "UserAudit list"
  chainCounts :: "ChainKey \<rightharpoonup> nat"
  totalStars :: nat
  success_u :: bool
  trace_u :: "event list"

definition emit_user :: "event \<Rightarrow> user_state \<Rightarrow> user_state" where
  "emit_user e st = st\<lparr>trace_u := trace_u st @ [e]\<rparr>"

text \<open>
  The body of the \<open>if\<close> in the callback: the record is pushed,
  \<open>chainCounts[chainKey] = (chainCounts[chainKey] || 0) + 1\<close> and
  \<open>totalStars += Number(stars[actualIdx])\<close>.
\<close>

definition push_user :: "ChainKey \<Rightarrow> UserAudit \<Rightarrow> user_state \<Rightarrow> user_state" where
  "push_user chainKey a st =
     st\<lparr>allAudits_u := allAudits_u st @ [a],
        chainCounts := (chainCounts st)
          (chainKey \<mapsto> (case chainCounts st chainKey of None \<Rightarrow> 0 | Some n \<Rightarrow> n) + 1),
        totalStars := totalStars st + stars_u a\<rparr>"

text \<open>
  \<open>batch.forEach((hash, idx) => ...)\<close>. The first four conjuncts of the guard are those
  of the reports page (\<open>guard\<close>); the fifth is
  \<open>auditors[actualIdx].toLowerCase() === userAddress.toLowerCase()\<close>, read only when the
  four hold. The elements of \<open>auditors\<close> are strings, so \<open>toLowerCase\<close> does not throw.
\<close>

fun forEach_user :: "string \<Rightarrow> ChainKey \<Rightarrow> AllAudits \<Rightarrow> nat \<Rightarrow> nat \<Rightarrow> string list \<Rightarrow> user_state \<Rightarrow> user_state \<times> completion" where
  "forEach_user userAddress chainKey r i idx [] st = (st, Normal)"
| "forEach_user userAddress chainKey r i idx (hash # batch) st =
     (case guard r (i + idx) of
        Inl e \<Rightarrow> (st, Throw e)
      | Inr None \<Rightarrow> forEach_user userAddress chainKey r i (idx + 1) batch st
      | Inr (Some (s, m, a, t)) \<Rightarrow>
          if toLowerCase a = toLowerCase userAddress
          then forEach_user userAddress chainKey r i (idx + 1) batch
                 (push_user chainKey
                    \<lparr>contractHash_u = hash, stars_u = s, summary_u = m, timestamp_u = t,
                     chain_u = chainKey\<rparr> st)
          else forEach_user userAddress chainKey r i (idx + 1) batch st)"

text \<open>The loops and the \<open>try\<close> statement, as in \<open>fetchAllChainAudits\<close>.\<close>

function for_batches_user :: "string \<Rightarrow> ChainKey \<Rightarrow> AllAudits \<Rightarrow> string list \<Rightarrow> nat \<Rightarrow> user_state \<Rightarrow> user_state \<times> completion" where
  "for_batches_user userAddress chainKey r hashes i st =
     (if i < length hashes then
        (let (st1, c) = forEach_user userAddress chainKey r i 0 (slice hashes i (i + batchSize)) st in
           if is_Throw c then (st1, c)
           else for_batches_user userAddress chainKey r hashes (i + batchSize) (emit_user (Sleep 10) st1))
      else (st, Normal))"
  by pat_completeness auto
termination
  by (relation "measure (\<lambda>(userAddress, chainKey, r, hashes, i, st). length hashes - i)")
     (auto simp: batchSize_def)

definition try_body_user :: "string \<Rightarrow> ChainKey \<Rightarrow> string \<Rightarrow> rpc_behaviour \<Rightarrow> nat \<Rightarrow> string \<Rightarrow> user_state \<Rightarrow> user_state \<times> completion" where
  "try_body_user userAddress chainKey contractAddress rpc retryCount rpcUrl st =
     (let st1 = emit_user (LogAttemptRpc rpcUrl (retryCount + 1) maxRetries) st;
          (waited, totalContracts) = race (getTotalContracts rpc) 10000 ''getTotalContracts timeout'';
          st2 = emit_user (Call_getTotalContracts rpcUrl contractAddress waited) st1
      in case totalContracts of
           Inl e \<Rightarrow> (st2, Throw e)
         | Inr totalContractsNum \<Rightarrow>
             let st3 = emit_user (LogTotal chainKey totalContractsNum) st2 in
             if totalContractsNum = 0
             then ((emit_user (LogNoContracts chainKey) st3)\<lparr>success_u := True\<rparr>, Break)
             else
               let (waited2, result) =
                     race (getAllAudits rpc 0 totalContractsNum) 20000 ''getAllAudits timeout'';
                   st4 = emit_user (Call_getAllAudits rpcUrl contractAddress 0 totalContractsNum waited2) st3
               in case result of
                    Inl e \<Rightarrow> (st4, Throw e)
                  | Inr Null \<Rightarrow> (st4, Throw (Error ''Invalid response format''))
                  | Inr (Obj r) \<Rightarrow>
                      (case contractHashes r of
                         None \<Rightarrow> (st4, Throw (Error ''Invalid response format''))
                       | Some hashes \<Rightarrow>
                           (let (st5, c) = for_batches_user userAddress chainKey r hashes 0 st4 in
                              if is_Throw c then (st5, c)
                              else ((emit_user (LogProcessed (length hashes) chainKey) st5)\<lparr>success_u := True\<rparr>,
                                    Break))))"

definition try_catch_user :: "string \<Rightarrow> ChainKey \<Rightarrow> string \<Rightarrow> rpc_behaviour \<Rightarrow> nat \<Rightarrow> string \<Rightarrow> user_state \<Rightarrow> user_state \<times> completion" where
  "try_catch_user userAddress chainKey contractAddress rpc retryCount rpcUrl st =
     (case try_body_user userAddress chainKey contractAddress rpc retryCount rpcUrl st of
        (st1, Throw e) \<Rightarrow>
          if isRpcError e then (emit_user (WarnRpcFailed rpcUrl (message e)) st1, Continue)
          else (emit_user (LogError chainKey e) st1, Normal)
      | (st1, c) \<Rightarrow> (st1, c))"

fun for_rpcUrls_user :: "string \<Rightarrow> ChainKey \<Rightarrow> string \<Rightarrow> world \<Rightarrow> nat \<Rightarrow> nat \<Rightarrow> string list \<Rightarrow> user_state \<Rightarrow> user_state \<times> completion" where
  "for_rpcUrls_user userAddress chainKey contractAddress w retryCount n [] st = (st, Normal)"
| "for_rpcUrls_user userAddress chainKey contractAddress w retryCount n (rpcUrl # rest) st =
     (let (st1, c) = try_catch_user userAddress chainKey contractAddress (w chainKey retryCount n) retryCount rpcUrl st in
        if c = Break then (st1, Normal)
        else if is_Throw c then (st1, c)
        else for_rpcUrls_user userAddress chainKey contractAddress w retryCount (n + 1) rest st1)"

function while_retry_user :: "string \<Rightarrow> ChainKey \<Rightarrow> string \<Rightarrow> world \<Rightarrow> string list \<Rightarrow> nat \<Rightarrow> user_state \<Rightarrow> user_state \<times> completion" where
  "while_retry_user userAddress chainKey contractAddress w urls retryCount st =
     (if \<not> success_u st \<and> retryCount < maxRetries then
        (let (st1, c) = for_rpcUrls_user userAddress chainKey contractAddress w retryCount 0 urls st in
           if is_Throw c then (st1, c)
           else if \<not> success_u st1 then
               (if retryCount + 1 < maxRetries then
                  while_retry_user userAddress chainKey contractAddress w urls (retryCount + 1)
                    (emit_user (Sleep (baseDelay * 2 ^ (retryCount + 1)))
                       (emit_user (LogRetry chainKey (baseDelay * 2 ^ (retryCount + 1))) st1))
                else while_retry_user userAddress chainKey contractAddress w urls (retryCount + 1) st1)
             else while_retry_user userAddress chainKey contractAddress w urls retryCount st1)
      else (st, Normal))"
  by pat_completeness auto
termination
  by (relation "measure (\<lambda>(userAddress, chainKey, contractAddress, w, urls, retryCount, st).
                  if success_u st then 0 else Suc (maxRetries - retryCount))")
     (auto simp: emit_user_def)

definition chain_body_user :: "string \<Rightarrow> (ChainKey \<rightharpoonup> string) \<Rightarrow> world \<Rightarrow> ChainKey \<times> ChainConfig \<Rightarrow> user_state \<Rightarrow> user_state \<times> completion" where
  "chain_body_user userAddress CONTRACT_ADDRESSES w entry st =
     (let chainKey = fst entry; chainData = snd entry;
          st1 = emit_user (LogAttemptChain chainKey) st
      in case CONTRACT_ADDRESSES chainKey of
           None \<Rightarrow> (emit_user (LogNoAddress chainKey) st1, Continue)
         | Some contractAddress \<Rightarrow>
             if contractAddress = [] then (emit_user (LogNoAddress chainKey) st1, Continue)
             else
               (let (st2, c) = while_retry_user userAddress chainKey contractAddress w (rpcUrls chainData) 0
                                 (st1\<lparr>success_u := False\<rparr>)
                in if is_Throw c then (st2, c)
                   else if \<not> success_u st2 then (emit_user (LogFailed chainKey maxRetries) st2, Normal)
                   else (st2, Normal)))"

fun for_chains_user :: "string \<Rightarrow> (ChainKey \<rightharpoonup> string) \<Rightarrow> world \<Rightarrow> (ChainKey \<times> ChainConfig) list \<Rightarrow> user_state \<Rightarrow> user_state \<times> completion" where
  "for_chains_user userAddress CONTRACT_ADDRESSES w [] st = (st, Normal)"
| "for_chains_user userAddress CONTRACT_ADDRESSES w (entry # rest) st =
     (let (st1, c) = chain_body_user userAddress CONTRACT_ADDRESSES w entry st in
        if is_Throw c then (st1, c)
        else for_chains_user userAddress CONTRACT_ADDRESSES w rest st1)"

text \<open>\<open>allAudits.sort((a, b) => b.timestamp - a.timestamp)\<close>.\<close>

definition sort_desc_user :: "UserAudit list \<Rightarrow> UserAudit list" where
  "sort_desc_user xs = sort_key (\<lambda>a. - int (timestamp_u a)) xs"

definition initial_user :: user_state where
  "initial_user = \<lparr>allAudits_u = [], chainCounts = Map.empty, totalStars = 0,
                   success_u = False, trace_u = []\<rparr>"

text \<open>
  The whole function: the final state, the value that \<open>setStats\<close> receives, and how the
  function completes. \<open>sort\<close> sorts \<open>allAudits\<close> in place; \<open>slice(0, 5)\<close> is \<open>take 5\<close>.
\<close>

definition fetchUserStats :: "string \<Rightarrow> (ChainKey \<times> ChainConfig) list \<Rightarrow> (ChainKey \<rightharpoonup> string) \<Rightarrow> world \<Rightarrow> user_state \<times> AuditStats option \<times> completion" where
  "fetchUserStats userAddress config CONTRACT_ADDRESSES w =
     (let (st, c) = for_chains_user userAddress CONTRACT_ADDRESSES w config initial_user in
        if is_Throw c then (st, None, c)
        else
          (let totalAudits = length (allAudits_u st);
               st1 = emit_user (LogTotalAudits totalAudits) st;
               sorted = sort_desc_user (allAudits_u st1)
           in (st1\<lparr>allAudits_u := sorted\<rparr>,
               Some \<lparr>totalAudits = totalAudits,
                     averageStars = (if totalAudits > 0 then real (totalStars st1) / real totalAudits else 0),
                     chainBreakdown = chainCounts st1,
                     recentAudits = take 5 sorted\<rparr>,
               Normal)))"

section \<open>Notions used in the statements\<close>

subsection \<open>What one chain adds\<close>

text \<open>
  What one chain adds when its loop body runs by itself, from the initial state: the
  records pushed and the events emitted.
\<close>

definition contribution :: "(ChainKey \<rightharpoonup> string) \<Rightarrow> world \<Rightarrow> ChainKey \<times> ChainConfig \<Rightarrow> AuditReport list" where
  "contribution addrs w entry = allAudits (fst (chain_body addrs w entry initial))"

definition events :: "(ChainKey \<rightharpoonup> string) \<Rightarrow> world \<Rightarrow> ChainKey \<times> ChainConfig \<Rightarrow> event list" where
  "events addrs w entry = trace (fst (chain_body addrs w entry initial))"

text \<open>A state with records and events put in front of its own.\<close>

definition pre :: "AuditReport list \<Rightarrow> event list \<Rightarrow> state \<Rightarrow> state" where
  "pre xs es st = st\<lparr>allAudits := xs @ allAudits st, trace := es @ trace st\<rparr>"

text \<open>Every record of the state carries the chain key \<open>k\<close>.\<close>

definition tagged :: "ChainKey \<Rightarrow> state \<Rightarrow> bool" where
  "tagged k st = (\<forall>r\<in>set (allAudits st). chain r = k)"

subsection \<open>The records of an answer\<close>

text \<open>
  The records of an answer whose five properties are arrays: one for every index that
  all five arrays have, in index order.
\<close>

definition all_arrays :: "AllAudits \<Rightarrow> string list \<Rightarrow> nat list \<Rightarrow> string list \<Rightarrow> string list \<Rightarrow> nat list \<Rightarrow> bool" where
  "all_arrays r hs ss ms as ts =
     (contractHashes r = Some hs \<and> starsArr r = Some ss \<and> summaries r = Some ms \<and>
      auditors r = Some as \<and> timestamps r = Some ts)"

definition mkRecord :: "ChainKey \<Rightarrow> string list \<Rightarrow> nat list \<Rightarrow> string list \<Rightarrow> string list \<Rightarrow> nat list \<Rightarrow> nat \<Rightarrow> AuditReport" where
  "mkRecord k hs ss ms as ts j =
     \<lparr>contractHash = hs ! j, stars = ss ! j, summary = ms ! j, auditor = as ! j,
      timestamp = ts ! j, chain = k\<rparr>"

definition common_length :: "string list \<Rightarrow> nat list \<Rightarrow> string list \<Rightarrow> string list \<Rightarrow> nat list \<Rightarrow> nat" where
  "common_length hs ss ms as ts =
     min (length hs) (min (length ss) (min (length ms) (min (length as) (length ts))))"

definition records_of :: "ChainKey \<Rightarrow> string list \<Rightarrow> nat list \<Rightarrow> string list \<Rightarrow> string list \<Rightarrow> nat list \<Rightarrow> AuditReport list" where
  "records_of k hs ss ms as ts = map (mkRecord k hs ss ms as ts) [0..<common_length hs ss ms as ts]"

text \<open>The records of the indices from \<open>i\<close> up to \<open>j\<close>.\<close>

definition recs_from :: "ChainKey \<Rightarrow> string list \<Rightarrow> nat list \<Rightarrow> string list \<Rightarrow> string list \<Rightarrow> nat list \<Rightarrow> nat \<Rightarrow> nat \<Rightarrow> AuditReport list" where
  "recs_from k hs ss ms as ts i j =
     map (mkRecord k hs ss ms as ts)
       [min i (common_length hs ss ms as ts)..<min j (common_length hs ss ms as ts)]"

subsection \<open>Batches\<close>

text \<open>
  The batches that the loop over \<open>contractHashes\<close> slices, from index \<open>i\<close> on, and the
  loop as it runs over a given list of batches.
\<close>

function batches :: "string list \<Rightarrow> nat \<Rightarrow> string list list" where
  "batches hashes i =
     (if i < length hashes
      then slice hashes i (i + batchSize) # batches hashes (i + batchSize)
      else [])"
  by pat_completeness auto
termination
  by (relation "measure (\<lambda>(hashes, i). length hashes - i)") (auto simp: batchSize_def)

fun run_batches :: "ChainKey \<Rightarrow> AllAudits \<Rightarrow> nat \<Rightarrow> string list list \<Rightarrow> state \<Rightarrow> state \<times> completion" where
  "run_batches chainKey r i [] st = (st, Normal)"
| "run_batches chainKey r i (batch # rest) st =
     (let (st1, c) = forEach chainKey r i 0 batch st in
        if is_Throw c then (st1, c)
        else run_batches chainKey r (i + batchSize) rest (emit (Sleep 10) st1))"

subsection \<open>Reading a trace\<close>

text \<open>
  The timers awaited, the endpoint attempts with their attempt number, and whether a
  contract call was awaited no longer than its timeout.
\<close>

definition delay_of :: "event \<Rightarrow> nat list" where
  "delay_of e = (case e of Sleep ms \<Rightarrow> [ms] | _ \<Rightarrow> [])"

definition sleeps :: "event list \<Rightarrow> nat list" where
  "sleeps es = concat (map delay_of es)"

definition attempt_of :: "event \<Rightarrow> (string \<times> nat) list" where
  "attempt_of e = (case e of LogAttemptRpc url n m \<Rightarrow> [(url, n)] | _ \<Rightarrow> [])"

definition attempts :: "event list \<Rightarrow> (string \<times> nat) list" where
  "attempts es = concat (map attempt_of es)"

definition wait_bounded :: "event \<Rightarrow> bool" where
  "wait_bounded e =
     (case e of Call_getTotalContracts url a t \<Rightarrow> t \<le> 10000
      | Call_getAllAudits url a i n t \<Rightarrow> t \<le> 20000
      | _ \<Rightarrow> True)"

text \<open>
  The events of a round in which every endpoint of \<open>urls\<close> is attempted once, in
  order, with attempt number \<open>n\<close>, and no timer is awaited.
\<close>

definition failed_round :: "string list \<Rightarrow> nat \<Rightarrow> event list \<Rightarrow> bool" where
  "failed_round urls n es = (sleeps es = [] \<and> attempts es = map (\<lambda>u. (u, n)) urls)"

text \<open>
  The attempts of consecutive rounds numbered from \<open>n\<close> on, where the rounds try the
  first \<open>m\<close> endpoints of \<open>urls\<close> in order, for the successive \<open>m\<close> of the list.
\<close>

fun rounds :: "string list \<Rightarrow> nat \<Rightarrow> nat list \<Rightarrow> (string \<times> nat) list" where
  "rounds urls n [] = []"
| "rounds urls n (m # ms) = map (\<lambda>u. (u, n)) (take m urls) @ rounds urls (Suc n) ms"

subsection \<open>Failing endpoints\<close>

text \<open>
  An endpoint fails with a transient error: the count query, or else the bulk fetch,
  ends in an error that the \<open>catch\<close> block classifies as an RPC error.
\<close>

definition fails_transiently :: "rpc_behaviour \<Rightarrow> bool" where
  "fails_transiently rpc =
     (case snd (race (getTotalContracts rpc) 10000 ''getTotalContracts timeout'') of
        Inl e \<Rightarrow> isRpcError e
      | Inr n \<Rightarrow>
          n \<noteq> 0 \<and>
          (case snd (race (getAllAudits rpc 0 n) 20000 ''getAllAudits timeout'') of
             Inl e \<Rightarrow> isRpcError e
           | Inr res \<Rightarrow> False))"

subsection \<open>Zero counts\<close>

text \<open>
  The trace ends with an attempt whose count query returned zero: the attempt is logged,
  the count query is made, and the count and the absence of contracts are logged.
\<close>

definition zero_tail :: "ChainKey \<Rightarrow> event list \<Rightarrow> bool" where
  "zero_tail k es =
     (\<exists>p url n m a t. es = p @ [LogAttemptRpc url n m, Call_getTotalContracts url a t,
                                 LogTotal k 0, LogNoContracts k])"

text \<open>
  While a chain is fetched: as long as \<open>success\<close> is not set, no zero count has been
  logged and the records are those of \<open>A\<close>; and if a zero count has been logged, the
  records are those of \<open>A\<close> and the trace ends with that attempt.
\<close>

definition zero_inv :: "ChainKey \<Rightarrow> AuditReport list \<Rightarrow> state \<Rightarrow> bool" where
  "zero_inv k A st =
     ((success st \<or> (LogNoContracts k \<notin> set (trace st) \<and> allAudits st = A)) \<and>
      (LogNoContracts k \<in> set (trace st) \<longrightarrow> allAudits st = A \<and> zero_tail k (trace st)))"

subsection \<open>The records of one identity\<close>

text \<open>
  A record of the reports page without its auditor, and the records of a list whose
  auditor is the given address up to case, in the order of the list.
\<close>

definition userAudit_of :: "AuditReport \<Rightarrow> UserAudit" where
  "userAudit_of r =
     \<lparr>contractHash_u = contractHash r, stars_u = stars r, summary_u = summary r,
      timestamp_u = timestamp r, chain_u = chain r\<rparr>"

definition retained :: "string \<Rightarrow> AuditReport list \<Rightarrow> UserAudit list" where
  "retained userAddress xs =
     map userAudit_of (filter (\<lambda>r. toLowerCase (auditor r) = toLowerCase userAddress) xs)"

text \<open>The number of records of a chain, as \<open>chainCounts\<close> holds it: no entry for none.\<close>

definition count_of :: "ChainKey \<Rightarrow> UserAudit list \<Rightarrow> nat option" where
  "count_of k xs =
     (if filter (\<lambda>a. chain_u a = k) xs = [] then None
      else Some (length (filter (\<lambda>a. chain_u a = k) xs)))"

text \<open>The counters of the profile page agree with its records.\<close>

definition counted :: "user_state \<Rightarrow> bool" where
  "counted ust =
     (totalStars ust = sum_list (map stars_u (allAudits_u ust)) \<and>
      (\<forall>k. chainCounts ust k = count_of k (allAudits_u ust)))"

text \<open>
  A state of the reports page and a state of the profile page that were reached on the
  same answers: same flag, same trace, and the profile page holds the records of the
  identity.
\<close>

definition sim :: "string \<Rightarrow> state \<Rightarrow> user_state \<Rightarrow> bool" where
  "sim userAddress st ust =
     (allAudits_u ust = retained userAddress (allAudits st) \<and>
      success_u ust = success st \<and> trace_u ust = trace st \<and> counted ust)"

section \<open>Example inputs\<close>

text \<open>
  Three chains: \<open>badnet\<close>, whose endpoints never answer, \<open>goodnet\<close>, whose endpoints
  answer with two records, and \<open>noaddr\<close>, which has no registry address.
\<close>

definition chain_bad :: "ChainKey \<times> ChainConfig" where
  "chain_bad = (''badnet'', \<lparr>chainId = ''0x1'', chainName = ''Bad'', rpcUrls = [''u1'', ''u2'']\<rparr>)"

definition chain_good :: "ChainKey \<times> ChainConfig" where
  "chain_good = (''goodnet'', \<lparr>chainId = ''0x2'', chainName = ''Good'', rpcUrls = [''v1'', ''v2'']\<rparr>)"

definition chain_noaddr :: "ChainKey \<times> ChainConfig" where
  "chain_noaddr = (''noaddr'', \<lparr>chainId = ''0x3'', chainName = ''Unregistered'', rpcUrls = [''x1'']\<rparr>)"

definition config_ex :: "(ChainKey \<times> ChainConfig) list" where
  "config_ex = [chain_bad, chain_good, chain_noaddr]"

definition addrs_ex :: "ChainKey \<rightharpoonup> string" where
  "addrs_ex = [''badnet'' \<mapsto> ''0xBAD'', ''goodnet'' \<mapsto> ''0xREG'']"

definition response_ex :: AllAudits where
  "response_ex =
     \<lparr>contractHashes = Some [''0xaa'', ''0xbb''], starsArr = Some [5, 3],
      summaries = Some [''ok'', ''bad''], auditors = Some [''0xA1'', ''0xB2''],
      timestamps = Some [100, 200]\<rparr>"

definition rpc_ok :: rpc_behaviour where
  "rpc_ok = \<lparr>getTotalContracts = Fulfils 120 2,
            getAllAudits = (\<lambda>i n. Fulfils 300 (Obj response_ex))\<rparr>"

definition rpc_down :: rpc_behaviour where
  "rpc_down = \<lparr>getTotalContracts = Pending, getAllAudits = (\<lambda>i n. Pending)\<rparr>"

definition world_ex :: world where
  "world_ex k rc n = (if k = ''goodnet'' then rpc_ok else rpc_down)"

definition record_aa :: AuditReport where
  "record_aa = \<lparr>contractHash = ''0xaa'', stars = 5, summary = ''ok'', auditor = ''0xA1'',
               timestamp = 100, chain = ''goodnet''\<rparr>"

definition record_bb :: AuditReport where
  "record_bb = \<lparr>contractHash = ''0xbb'', stars = 3, summary = ''bad'', auditor = ''0xB2'',
               timestamp = 200, chain = ''goodnet''\<rparr>"

text \<open>An answer of 120 records.\<close>

definition response_120 :: AllAudits where
  "response_120 =
     \<lparr>contractHashes = Some (replicate 120 ''0xaa''), starsArr = Some (replicate 120 5),
      summaries = Some (replicate 120 ''ok''), auditors = Some (replicate 120 ''0xA1''),
      timestamps = Some (replicate 120 100)\<rparr>"

definition rpc_120 :: rpc_behaviour where
  "rpc_120 = \<lparr>getTotalContracts = Fulfils 120 120,
             getAllAudits = (\<lambda>i n. Fulfils 300 (Obj response_120))\<rparr>"

definition world_120 :: world where
  "world_120 k rc n = rpc_120"

text \<open>A registry without contracts behind the second endpoint; the first never answers.\<close>

definition rpc_empty :: rpc_behaviour where
  "rpc_empty = \<lparr>getTotalContracts = Fulfils 80 0, getAllAudits = (\<lambda>i n. Pending)\<rparr>"

definition world_empty :: world where
  "world_empty k rc n = (if n = 0 then rpc_down else rpc_empty)"

text \<open>An answer with two hashes and one rating, and a null answer.\<close>

definition response_short :: AllAudits where
  "response_short =
     \<lparr>contractHashes = Some [''0xaa'', ''0xbb''], starsArr = Some [5],
      summaries = Some [''ok'', ''bad''], auditors = Some [''0xA1'', ''0xB2''],
      timestamps = Some [100, 200]\<rparr>"

definition rpc_short :: rpc_behaviour where
  "rpc_short = \<lparr>getTotalContracts = Fulfils 120 2,
               getAllAudits = (\<lambda>i n. Fulfils 300 (Obj response_short))\<rparr>"

definition rpc_null :: rpc_behaviour where
  "rpc_null = \<lparr>getTotalContracts = Fulfils 120 2, getAllAudits = (\<lambda>i n. Fulfils 300 Null)\<rparr>"

text \<open>An answer of three records, the first and the third of one auditor.\<close>

definition response_three :: AllAudits where
  "response_three =
     \<lparr>contractHashes = Some [''0xaa'', ''0xbb'', ''0xcc''], starsArr = Some [5, 3, 4],
      summaries = Some [''ok'', ''bad'', ''fine''], auditors = Some [''0xA1'', ''0xB2'', ''0xa1''],
      timestamps = Some [100, 200, 300]\<rparr>"

section \<open>Properties\<close>

subsection \<open>Records and events already present are kept in front\<close>

declare for_batches.simps [simp del] while_retry.simps [simp del]

lemma pre_simps:
  "allAudits (pre xs es st) = xs @ allAudits st"
  "trace (pre xs es st) = es @ trace st"
  "success (pre xs es st) = success st"
  "emit e (pre xs es st) = pre xs es (emit e st)"
  "push r (pre xs es st) = pre xs es (push r st)"
  "(pre xs es st)\<lparr>success := b\<rparr> = pre xs es (st\<lparr>success := b\<rparr>)"
  by (simp_all add: pre_def emit_def push_def)

lemma forEach_pre:
  "forEach k r i idx batch (pre xs es st) = apfst (pre xs es) (forEach k r i idx batch st)"
  by (induction batch arbitrary: idx st)
     (auto simp: pre_simps split: sum.splits option.splits prod.splits)

lemma for_batches_pre:
  "for_batches k r hashes i (pre xs es st) = apfst (pre xs es) (for_batches k r hashes i st)"
proof (induction k r hashes i st rule: for_batches.induct)
  case (1 k r hashes i st)
  show ?case
  proof (cases "i < length hashes")
    case False
    then show ?thesis by (simp add: for_batches.simps)
  next
    case True
    obtain st1 c where fe: "forEach k r i 0 (slice hashes i (i + batchSize)) st = (st1, c)"
      by (cases "forEach k r i 0 (slice hashes i (i + batchSize)) st")
    show ?thesis
    proof (cases "is_Throw c")
      case True
      with \<open>i < length hashes\<close> fe show ?thesis
        by (simp add: for_batches.simps[of k r hashes i] forEach_pre)
    next
      case False
      with \<open>i < length hashes\<close> fe "1.IH"[OF \<open>i < length hashes\<close> refl fe[symmetric] False] show ?thesis
        by (simp add: for_batches.simps[of k r hashes i] forEach_pre pre_simps)
    qed
  qed
qed

lemma try_body_pre:
  "try_body k a rpc rc url (pre xs es st) = apfst (pre xs es) (try_body k a rpc rc url st)"
  by (simp add: try_body_def Let_def pre_simps for_batches_pre
           split: prod.splits sum.splits js_result.splits option.splits)

lemma try_catch_pre:
  "try_catch k a rpc rc url (pre xs es st) = apfst (pre xs es) (try_catch k a rpc rc url st)"
  by (simp add: try_catch_def try_body_pre pre_simps split: prod.splits completion.splits)

lemma for_rpcUrls_pre:
  "for_rpcUrls k a w rc n urls (pre xs es st) = apfst (pre xs es) (for_rpcUrls k a w rc n urls st)"
  by (induction urls arbitrary: n st) (simp_all add: try_catch_pre split: prod.splits)

lemma while_retry_pre:
  "while_retry k a w urls rc (pre xs es st) = apfst (pre xs es) (while_retry k a w urls rc st)"
proof (induction k a w urls rc st rule: while_retry.induct)
  case (1 k a w urls rc st)
  show ?case
  proof (cases "\<not> success st \<and> rc < maxRetries")
    case False
    then show ?thesis by (auto simp add: while_retry.simps[of k a w urls rc] pre_simps)
  next
    case True
    obtain st1 c where fr: "for_rpcUrls k a w rc 0 urls st = (st1, c)"
      by (cases "for_rpcUrls k a w rc 0 urls st")
    note IH = "1.IH"[OF True refl fr[symmetric]]
    from True fr IH show ?thesis
      by (simp add: while_retry.simps[of k a w urls rc] for_rpcUrls_pre pre_simps)
  qed
qed

lemma chain_body_pre:
  "chain_body addrs w e (pre xs es st) = apfst (pre xs es) (chain_body addrs w e st)"
  by (auto simp add: chain_body_def Let_def pre_simps while_retry_pre split: prod.splits option.splits)

lemma for_chains_pre:
  "for_chains addrs w cfg (pre xs es st) = apfst (pre xs es) (for_chains addrs w cfg st)"
  by (induction cfg arbitrary: st) (simp_all add: chain_body_pre split: prod.splits)

subsection \<open>No error leaves the try statement\<close>

lemma try_catch_no_throw: "\<not> is_Throw (snd (try_catch k a rpc rc url st))"
  by (simp add: try_catch_def split: prod.splits completion.splits)

lemma for_rpcUrls_Normal: "snd (for_rpcUrls k a w rc n urls st) = Normal"
proof (induction urls arbitrary: n st)
  case Nil
  show ?case by simp
next
  case (Cons url rest)
  obtain st1 c where tc: "try_catch k a (w k rc n) rc url st = (st1, c)"
    by (cases "try_catch k a (w k rc n) rc url st")
  with try_catch_no_throw[of k a "w k rc n" rc url st] have "\<not> is_Throw c" by simp
  with tc Cons.IH show ?case by simp
qed

lemma while_retry_Normal: "snd (while_retry k a w urls rc st) = Normal"
proof (induction k a w urls rc st rule: while_retry.induct)
  case (1 k a w urls rc st)
  show ?case
  proof (cases "\<not> success st \<and> rc < maxRetries")
    case False
    then show ?thesis by (auto simp add: while_retry.simps[of k a w urls rc])
  next
    case True
    obtain st1 c where fr: "for_rpcUrls k a w rc 0 urls st = (st1, c)"
      by (cases "for_rpcUrls k a w rc 0 urls st")
    with for_rpcUrls_Normal[of k a w rc 0 urls st] have c: "c = Normal" by simp
    note IH = "1.IH"[OF True refl fr[symmetric]]
    from True fr IH c show ?thesis
      by (simp add: while_retry.simps[of k a w urls rc])
  qed
qed

lemma while_retry_NormalD: "while_retry k a w urls rc st = (st', c) \<Longrightarrow> c = Normal"
  using while_retry_Normal[of k a w urls rc st] by simp

lemma chain_body_no_throw: "\<not> is_Throw (snd (chain_body addrs w e st))"
  by (auto simp add: chain_body_def Let_def split: prod.splits option.splits
           dest: while_retry_NormalD)

lemma for_chains_Normal: "snd (for_chains addrs w cfg st) = Normal"
proof (induction cfg arbitrary: st)
  case Nil
  show ?case by simp
next
  case (Cons e rest)
  obtain st1 c where cb: "chain_body addrs w e st = (st1, c)"
    by (cases "chain_body addrs w e st")
  with chain_body_no_throw[of addrs w e st] have "\<not> is_Throw c" by simp
  with cb Cons.IH show ?case by simp
qed

lemma for_chains_NormalD: "for_chains addrs w cfg st = (st', c) \<Longrightarrow> c = Normal"
  using for_chains_Normal[of addrs w cfg st] by simp

lemma fetchAll_Normal: "snd (fetchAllChainAudits cfg addrs w) = Normal"
  by (auto simp add: fetchAllChainAudits_def split: prod.splits dest: for_chains_NormalD)

subsection \<open>The records delivered are the contributions of the chains\<close>

lemma chain_body_success_irrelevant:
  "allAudits (fst (chain_body addrs w e (st\<lparr>success := b\<rparr>))) = allAudits (fst (chain_body addrs w e st))"
  by (auto simp add: chain_body_def Let_def emit_def split: prod.splits option.splits)

lemma chain_body_allAudits:
  "allAudits (fst (chain_body addrs w e st)) = allAudits st @ contribution addrs w e"
proof -
  have "st = pre (allAudits st) (trace st) (initial\<lparr>success := success st\<rparr>)"
    by (simp add: pre_def initial_def)
  then have "allAudits (fst (chain_body addrs w e st)) =
             allAudits (fst (apfst (pre (allAudits st) (trace st)) (chain_body addrs w e (initial\<lparr>success := success st\<rparr>))))"
    using chain_body_pre[of addrs w e "allAudits st" "trace st" "initial\<lparr>success := success st\<rparr>"] by simp
  also have "\<dots> = allAudits st @ allAudits (fst (chain_body addrs w e (initial\<lparr>success := success st\<rparr>)))"
    by (simp add: pre_simps)
  finally show ?thesis
    by (simp add: contribution_def chain_body_success_irrelevant)
qed

lemma for_chains_allAudits:
  "allAudits (fst (for_chains addrs w cfg st)) = allAudits st @ concat (map (contribution addrs w) cfg)"
proof (induction cfg arbitrary: st)
  case Nil
  show ?case by simp
next
  case (Cons e rest)
  obtain st1 c where cb: "chain_body addrs w e st = (st1, c)"
    by (cases "chain_body addrs w e st")
  with chain_body_no_throw[of addrs w e st] have nt: "\<not> is_Throw c" by simp
  from cb chain_body_allAudits[of addrs w e st] have "allAudits st1 = allAudits st @ contribution addrs w e"
    by simp
  with cb nt Cons.IH[of st1] show ?case by simp
qed

lemma fetchAll_allAudits:
  "allAudits (fst (fetchAllChainAudits cfg addrs w)) = sort_desc (concat (map (contribution addrs w) cfg))"
  using for_chains_allAudits[of addrs w cfg initial]
  by (auto simp add: fetchAllChainAudits_def initial_def split: prod.splits dest: for_chains_NormalD)

subsection \<open>Answers whose five properties are arrays\<close>

lemma guard_all_arrays:
  "all_arrays r hs ss ms as ts \<Longrightarrow>
   guard r j = Inr (if j < length ss \<and> j < length ms \<and> j < length as \<and> j < length ts
                    then Some (ss ! j, ms ! j, as ! j, ts ! j) else None)"
  by (simp add: guard_def all_arrays_def)

lemma recs_from_step:
  "i < length hs \<Longrightarrow> i < j \<Longrightarrow>
   recs_from k hs ss ms as ts i j =
   (if i < length ss \<and> i < length ms \<and> i < length as \<and> i < length ts
    then [mkRecord k hs ss ms as ts i] else []) @ recs_from k hs ss ms as ts (Suc i) j"
  by (auto simp add: recs_from_def common_length_def min_def upt_conv_Cons)

lemma recs_from_empty [simp]: "recs_from k hs ss ms as ts i i = []"
  by (simp add: recs_from_def)

lemma recs_from_trans:
  "i \<le> j \<Longrightarrow> j \<le> l \<Longrightarrow>
   recs_from k hs ss ms as ts i j @ recs_from k hs ss ms as ts j l = recs_from k hs ss ms as ts i l"
proof -
  let ?c = "common_length hs ss ms as ts"
  assume "i \<le> j" "j \<le> l"
  then have "min i ?c \<le> min j ?c" "min j ?c \<le> min l ?c" by simp_all
  then have "[min i ?c..<min l ?c] = [min i ?c..<min j ?c] @ [min j ?c..<min l ?c]"
    by (metis le_Suc_ex upt_add_eq_append)
  then show ?thesis by (simp add: recs_from_def)
qed

lemma forEach_all_arrays:
  assumes "all_arrays r hs ss ms as ts"
  shows "i + idx + length batch \<le> length hs \<Longrightarrow> batch = take (length batch) (drop (i + idx) hs) \<Longrightarrow>
         forEach k r i idx batch st =
         (st\<lparr>allAudits := allAudits st @ recs_from k hs ss ms as ts (i + idx) (i + idx + length batch)\<rparr>, Normal)"
proof (induction batch arbitrary: idx st)
  case Nil
  show ?case by simp
next
  case (Cons h batch)
  from Cons.prems have lt: "i + idx < length hs" by simp
  from Cons.prems have h: "h = hs ! (i + idx)"
    by (metis lt hd_drop_conv_nth hd_take length_greater_0_conv list.sel(1) list.simps(3))
  from Cons.prems have b: "batch = take (length batch) (drop (i + Suc idx) hs)"
    by (metis Cons_nth_drop_Suc add_Suc_right length_Cons list.inject lt take_Suc_Cons)
  from Cons.prems have le: "i + Suc idx + length batch \<le> length hs" by simp
  note IH = Cons.IH[OF le b]
  have step: "recs_from k hs ss ms as ts (i + idx) (i + idx + length (h # batch)) =
              (if i + idx < length ss \<and> i + idx < length ms \<and> i + idx < length as \<and> i + idx < length ts
               then [mkRecord k hs ss ms as ts (i + idx)] else []) @
              recs_from k hs ss ms as ts (Suc (i + idx)) (i + idx + length (h # batch))"
    using lt by (intro recs_from_step) simp_all
  show ?case
    by (simp only: forEach.simps guard_all_arrays[OF assms] step)
       (simp add: IH push_def mkRecord_def h)
qed

lemma for_batches_all_arrays:
  "all_arrays r hs ss ms as ts \<Longrightarrow> i \<le> length hs \<Longrightarrow>
         for_batches k r hs i st =
         (st\<lparr>allAudits := allAudits st @ recs_from k hs ss ms as ts i (length hs),
             trace := trace st @ replicate ((length hs - i + batchSize - 1) div batchSize) (Sleep 10)\<rparr>, Normal)"
proof (induction k r hs i st rule: for_batches.induct)
  case (1 k r hs i st)
  note assms = "1.prems"(1)
  show ?case
  proof (cases "i < length hs")
    case False
    with "1.prems"(2) have "i = length hs" by simp
    then show ?thesis by (simp add: for_batches.simps[of k r hs "length hs"] batchSize_def)
  next
    case True
    let ?b = "slice hs i (i + batchSize)"
    let ?j = "min (i + batchSize) (length hs)"
    have len: "length ?b = ?j - i" by (auto simp add: slice_def min_def)
    have fe: "forEach k r i 0 ?b st =
              (st\<lparr>allAudits := allAudits st @ recs_from k hs ss ms as ts i ?j\<rparr>, Normal)"
    proof -
      have A: "i + 0 + length ?b \<le> length hs" using True by (simp add: len)
      have B: "?b = take (length ?b) (drop (i + 0) hs)"
        by (simp add: slice_def min_def)
      have "forEach k r i 0 ?b st =
              (st\<lparr>allAudits := allAudits st @ recs_from k hs ss ms as ts (i + 0) (i + 0 + length ?b)\<rparr>, Normal)"
        by (rule forEach_all_arrays[OF assms A B])
      moreover have "i + 0 + length ?b = ?j" using True by (simp add: len)
      ultimately show ?thesis by simp
    qed
    show ?thesis
    proof (cases "i + batchSize \<le> length hs")
      case le: True
      then have j: "?j = i + batchSize" by simp
      note IH = "1.IH"[OF True refl fe[symmetric, unfolded j] _ assms le, simplified]
      have cnt: "(length hs - i + batchSize - 1) div batchSize = Suc ((length hs - (i + batchSize) + batchSize - 1) div batchSize)"
        using le by (simp add: batchSize_def)
      have "recs_from k hs ss ms as ts i (i + batchSize) @ recs_from k hs ss ms as ts (i + batchSize) (length hs)
            = recs_from k hs ss ms as ts i (length hs)"
        using le by (intro recs_from_trans) simp_all
      then show ?thesis
        using True fe[unfolded j] IH cnt
        by (simp add: for_batches.simps[of k r hs i] emit_def replicate_append_same)
    next
      case gt: False
      then have j: "?j = length hs" by simp
      have nx: "for_batches k r hs (i + batchSize) s = (s, Normal)" for s
        using gt by (simp add: for_batches.simps[of k r hs "i + batchSize"])
      have cnt: "(length hs - i + batchSize - 1) div batchSize = 1"
        using gt True by (simp add: batchSize_def)
      show ?thesis
        using True fe[unfolded j] nx cnt
        by (simp add: for_batches.simps[of k r hs i] emit_def)
    qed
  qed
qed

subsection \<open>Traces of the batch loop\<close>

lemma sleeps_simps [simp]:
  "sleeps [] = []" "sleeps (xs @ ys) = sleeps xs @ sleeps ys"
  "sleeps (e # es) = delay_of e @ sleeps es"
  by (simp_all add: sleeps_def)

lemma attempts_simps [simp]:
  "attempts [] = []" "attempts (xs @ ys) = attempts xs @ attempts ys"
  "attempts (e # es) = attempt_of e @ attempts es"
  by (simp_all add: attempts_def)

lemma attempts_replicate_Sleep [simp]: "attempts (replicate n (Sleep ms)) = []"
  by (induction n) (simp_all add: attempt_of_def)

lemma race_le: "fst (race p ms msg) \<le> ms"
  by (simp add: race_def split: promise.splits)

lemma forEach_trace: "trace (fst (forEach k r i idx batch st)) = trace st"
  by (induction batch arbitrary: idx st)
     (auto simp: push_def split: sum.splits option.splits prod.splits)

lemma forEach_success: "success (fst (forEach k r i idx batch st)) = success st"
  by (induction batch arbitrary: idx st)
     (auto simp: push_def split: sum.splits option.splits prod.splits)

lemma for_batches_trace:
  "\<exists>n. trace (fst (for_batches k r hs i st)) = trace st @ replicate n (Sleep 10)"
proof (induction k r hs i st rule: for_batches.induct)
  case (1 k r hs i st)
  show ?case
  proof (cases "i < length hs")
    case False
    then show ?thesis by (simp add: for_batches.simps[of k r hs i])
  next
    case True
    obtain st1 c where fe: "forEach k r i 0 (slice hs i (i + batchSize)) st = (st1, c)"
      by (cases "forEach k r i 0 (slice hs i (i + batchSize)) st")
    with forEach_trace[of k r i 0 "slice hs i (i + batchSize)" st]
    have t1: "trace st1 = trace st" by simp
    show ?thesis
    proof (cases "is_Throw c")
      case True
      with \<open>i < length hs\<close> fe t1 show ?thesis
        by (simp add: for_batches.simps[of k r hs i])
    next
      case False
      from "1.IH"[OF True refl fe[symmetric] False] obtain n where
        "trace (fst (for_batches k r hs (i + batchSize) (emit (Sleep 10) st1))) =
         trace (emit (Sleep 10) st1) @ replicate n (Sleep 10)" by blast
      then have "trace (fst (for_batches k r hs (i + batchSize) (emit (Sleep 10) st1))) =
         trace st @ replicate (Suc n) (Sleep 10)"
        by (simp add: emit_def t1 replicate_append_same)
      with True False fe show ?thesis
        by (simp only: for_batches.simps[of k r hs i] if_True Let_def prod.case if_False) blast
    qed
  qed
qed

lemma for_batches_success: "success (fst (for_batches k r hs i st)) = success st"
proof (induction k r hs i st rule: for_batches.induct)
  case (1 k r hs i st)
  show ?case
  proof (cases "i < length hs")
    case False
    then show ?thesis by (simp add: for_batches.simps[of k r hs i])
  next
    case True
    obtain st1 c where fe: "forEach k r i 0 (slice hs i (i + batchSize)) st = (st1, c)"
      by (cases "forEach k r i 0 (slice hs i (i + batchSize)) st")
    with forEach_success[of k r i 0 "slice hs i (i + batchSize)" st]
    have t1: "success st1 = success st" by simp
    show ?thesis
    proof (cases "is_Throw c")
      case True
      with \<open>i < length hs\<close> fe t1 show ?thesis
        by (simp add: for_batches.simps[of k r hs i])
    next
      case False
      with True fe t1 "1.IH"[OF True refl fe[symmetric] False] show ?thesis
        by (simp add: for_batches.simps[of k r hs i] emit_def)
    qed
  qed
qed

subsection \<open>A throw can only happen at the first record\<close>

lemma guard_Inl_0: "guard r j = Inl e \<Longrightarrow> guard r 0 = Inl e"
  by (auto simp add: guard_def split: option.splits if_splits)

lemma forEach_no_throw:
  "\<forall>e. guard r 0 \<noteq> Inl e \<Longrightarrow> \<not> is_Throw (snd (forEach k r i idx batch st))"
proof (induction batch arbitrary: idx st)
  case Nil
  show ?case by simp
next
  case (Cons h batch)
  from Cons.prems have "\<forall>e. guard r (i + idx) \<noteq> Inl e" using guard_Inl_0 by blast
  with Cons.IH[OF Cons.prems] show ?case
    by (auto split: sum.splits option.splits prod.splits)
qed

lemma for_batches_no_throw:
  "\<forall>e. guard r 0 \<noteq> Inl e \<Longrightarrow> \<not> is_Throw (snd (for_batches k r hs i st))"
proof (induction k r hs i st rule: for_batches.induct)
  case (1 k r hs i st)
  show ?case
  proof (cases "i < length hs")
    case False
    then show ?thesis by (simp add: for_batches.simps[of k r hs i])
  next
    case True
    obtain st1 c where fe: "forEach k r i 0 (slice hs i (i + batchSize)) st = (st1, c)"
      by (cases "forEach k r i 0 (slice hs i (i + batchSize)) st")
    with forEach_no_throw[OF "1.prems", of k i 0 "slice hs i (i + batchSize)" st]
    have nt: "\<not> is_Throw c" by simp
    with True fe "1.IH"[OF True refl fe[symmetric] nt "1.prems"] show ?thesis
      by (simp add: for_batches.simps[of k r hs i])
  qed
qed

lemma for_batches_throw_unchanged:
  assumes "is_Throw (snd (for_batches k r hs 0 st))"
  shows "allAudits (fst (for_batches k r hs 0 st)) = allAudits st"
proof -
  from assms for_batches_no_throw obtain e where g: "guard r 0 = Inl e" by blast
  from assms have ne: "hs \<noteq> []" by (auto simp add: for_batches.simps[of k r hs 0])
  then obtain h rest where b: "slice hs 0 (0 + batchSize) = h # rest"
    by (cases hs) (simp_all add: slice_def batchSize_def)
  from ne g b show ?thesis
    by (simp add: for_batches.simps[of k r hs 0])
qed

lemma for_batches_throw_unchangedD:
  "for_batches k r hs 0 st = (st', c) \<Longrightarrow> is_Throw c \<Longrightarrow> allAudits st' = allAudits st"
  using for_batches_throw_unchanged[of k r hs st] by simp

lemma try_body_throw_unchanged:
  "is_Throw (snd (try_body k a rpc rc url st)) \<Longrightarrow>
   allAudits (fst (try_body k a rpc rc url st)) = allAudits st"
  by (auto simp add: try_body_def Let_def emit_def
           split: prod.splits sum.splits js_result.splits option.splits if_splits
           dest: for_batches_throw_unchangedD)

subsection \<open>The trace is made of the events of the chains\<close>

lemma chain_body_success_irrelevant_trace:
  "trace (fst (chain_body addrs w e (st\<lparr>success := b\<rparr>))) = trace (fst (chain_body addrs w e st))"
  by (auto simp add: chain_body_def Let_def emit_def split: prod.splits option.splits)

lemma chain_body_trace:
  "trace (fst (chain_body addrs w e st)) = trace st @ events addrs w e"
proof -
  have "st = pre (allAudits st) (trace st) (initial\<lparr>success := success st\<rparr>)"
    by (simp add: pre_def initial_def)
  then have "trace (fst (chain_body addrs w e st)) =
             trace (fst (apfst (pre (allAudits st) (trace st)) (chain_body addrs w e (initial\<lparr>success := success st\<rparr>))))"
    using chain_body_pre[of addrs w e "allAudits st" "trace st" "initial\<lparr>success := success st\<rparr>"] by simp
  also have "\<dots> = trace st @ trace (fst (chain_body addrs w e (initial\<lparr>success := success st\<rparr>)))"
    by (simp add: pre_simps)
  finally show ?thesis
    by (simp add: events_def chain_body_success_irrelevant_trace)
qed

lemma for_chains_trace:
  "trace (fst (for_chains addrs w cfg st)) = trace st @ concat (map (events addrs w) cfg)"
proof (induction cfg arbitrary: st)
  case Nil
  show ?case by simp
next
  case (Cons e rest)
  obtain st1 c where cb: "chain_body addrs w e st = (st1, c)"
    by (cases "chain_body addrs w e st")
  with chain_body_no_throw[of addrs w e st] have nt: "\<not> is_Throw c" by simp
  from cb chain_body_trace[of addrs w e st] have "trace st1 = trace st @ events addrs w e"
    by simp
  with cb nt Cons.IH[of st1] show ?case by simp
qed

lemma fetchAll_trace:
  "trace (fst (fetchAllChainAudits cfg addrs w)) = concat (map (events addrs w) cfg)"
  using for_chains_trace[of addrs w cfg initial]
  by (auto simp add: fetchAllChainAudits_def initial_def split: prod.splits dest: for_chains_NormalD)

subsection \<open>One endpoint\<close>

declare batches.simps [simp del]

lemma recs_from_all: "recs_from k hs ss ms as ts 0 (length hs) = records_of k hs ss ms as ts"
  by (simp add: recs_from_def records_of_def common_length_def)

lemma length_batches:
  "i \<le> length hs \<Longrightarrow> length (batches hs i) = (length hs - i + batchSize - 1) div batchSize"
proof (induction hs i rule: batches.induct)
  case (1 hs i)
  show ?case
  proof (cases "i < length hs")
    case False
    then show ?thesis by (simp add: batches.simps[of hs i] batchSize_def)
  next
    case True
    show ?thesis
    proof (cases "i + batchSize \<le> length hs")
      case le: True
      from "1.IH"[OF True le] True le show ?thesis
        by (simp add: batches.simps[of hs i] batchSize_def)
    next
      case gt: False
      then have "batches hs (i + batchSize) = []" by (simp add: batches.simps[of hs "i + batchSize"])
      with True gt show ?thesis
        by (simp add: batches.simps[of hs i] batchSize_def)
    qed
  qed
qed

lemma for_batches_ok:
  assumes "all_arrays r hs ss ms as ts"
  shows "for_batches k r hs 0 st =
         (st\<lparr>allAudits := allAudits st @ records_of k hs ss ms as ts,
             trace := trace st @ replicate (length (batches hs 0)) (Sleep 10)\<rparr>, Normal)"
  using for_batches_all_arrays[OF assms, of 0 k st]
  by (simp add: recs_from_all length_batches)

lemma try_body_count_zero:
  assumes "race (getTotalContracts rpc) 10000 ''getTotalContracts timeout'' = (t, Inr 0)"
  shows "try_body k a rpc rc url st =
         (st\<lparr>success := True,
             trace := trace st @ [LogAttemptRpc url (rc + 1) maxRetries, Call_getTotalContracts url a t,
                                  LogTotal k 0, LogNoContracts k]\<rparr>, Break)"
  using assms by (simp add: try_body_def emit_def)

lemma try_body_ok:
  assumes "race (getTotalContracts rpc) 10000 ''getTotalContracts timeout'' = (t, Inr n)"
    and "n \<noteq> 0"
    and "race (getAllAudits rpc 0 n) 20000 ''getAllAudits timeout'' = (t', Inr (Obj r))"
    and "all_arrays r hs ss ms as ts"
  shows "try_body k a rpc rc url st =
         (st\<lparr>allAudits := allAudits st @ records_of k hs ss ms as ts,
             success := True,
             trace := trace st @ [LogAttemptRpc url (rc + 1) maxRetries, Call_getTotalContracts url a t,
                                  LogTotal k n, Call_getAllAudits url a 0 n t'] @
                      replicate (length (batches hs 0)) (Sleep 10) @
                      [LogProcessed (length hs) k]\<rparr>, Break)"
proof -
  from assms(4) have h: "contractHashes r = Some hs" by (simp add: all_arrays_def)
  show ?thesis
    using assms(1,2,3) h
    by (simp add: try_body_def emit_def for_batches_ok[OF assms(4)])
qed

lemma try_body_invalid:
  assumes "race (getTotalContracts rpc) 10000 ''getTotalContracts timeout'' = (t, Inr n)"
    and "n \<noteq> 0"
    and "race (getAllAudits rpc 0 n) 20000 ''getAllAudits timeout'' = (t', Inr res)"
    and "res = Null \<or> (\<exists>r. res = Obj r \<and> contractHashes r = None)"
  shows "try_body k a rpc rc url st =
         (st\<lparr>trace := trace st @ [LogAttemptRpc url (rc + 1) maxRetries, Call_getTotalContracts url a t,
                                  LogTotal k n, Call_getAllAudits url a 0 n t']\<rparr>,
          Throw (Error ''Invalid response format''))"
  using assms by (auto simp add: try_body_def emit_def)

lemma not_isRpcError_invalid: "\<not> isRpcError (Error ''Invalid response format'')"
  by (simp add: isRpcError_def Error_def startsWith_def)

subsection \<open>Rounds that end with success\<close>

lemma while_retry_done: "success st \<Longrightarrow> while_retry k a w urls rc st = (st, Normal)"
  by (simp add: while_retry.simps[of k a w urls rc])

lemma while_retry_round_success:
  assumes "\<not> success st" "rc < maxRetries"
    and "for_rpcUrls k a w rc 0 urls st = (st1, c)" "success st1"
  shows "while_retry k a w urls rc st = (st1, Normal)"
  using assms for_rpcUrls_Normal[of k a w rc 0 urls st]
  by (simp add: while_retry.simps[of k a w urls rc] while_retry_done)

lemma for_rpcUrls_Break:
  assumes "try_catch k a (w k rc n) rc url st = (st1, Break)"
  shows "for_rpcUrls k a w rc n (url # rest) st = (st1, Normal)"
  using assms by simp

lemma try_catch_Break:
  "try_body k a rpc rc url st = (st1, Break) \<Longrightarrow> try_catch k a rpc rc url st = (st1, Break)"
  by (simp add: try_catch_def)

lemma try_body_Break_success:
  "try_body k a rpc rc url st = (st1, Break) \<Longrightarrow> success st1"
  by (auto simp add: try_body_def Let_def split: prod.splits sum.splits js_result.splits option.splits if_splits)

lemma try_catch_Break_success:
  "try_catch k a rpc rc url st = (st1, Break) \<Longrightarrow> success st1"
  by (auto simp add: try_catch_def split: prod.splits completion.splits if_splits
           dest: try_body_Break_success)

lemma try_catch_no_throwD: "try_catch k a rpc rc url st = (st1, c) \<Longrightarrow> \<not> is_Throw c"
  using try_catch_no_throw[of k a rpc rc url st] by simp

lemma for_rpcUrls_append:
  "for_rpcUrls k a w rc n xs st = (st1, c) \<Longrightarrow> \<not> success st1 \<Longrightarrow>
   for_rpcUrls k a w rc n (xs @ ys) st = for_rpcUrls k a w rc (n + length xs) ys st1"
proof (induction xs arbitrary: n st)
  case Nil
  then show ?case by simp
next
  case (Cons x xs)
  obtain s' c' where tc: "try_catch k a (w k rc n) rc x st = (s', c')"
    by (cases "try_catch k a (w k rc n) rc x st")
  have nb: "c' \<noteq> Break"
  proof
    assume "c' = Break"
    with tc Cons.prems show False by (auto dest: try_catch_Break_success)
  qed
  from tc have nt: "\<not> is_Throw c'" by (rule try_catch_no_throwD)
  from Cons.prems(1) tc nb nt have "for_rpcUrls k a w rc (n + 1) xs s' = (st1, c)" by simp
  from Cons.IH[OF this Cons.prems(2)] tc nb nt show ?case by simp
qed

lemma while_retry_count_zero:
  assumes "\<not> success st" "rc < maxRetries"
    and "for_rpcUrls k a w rc 0 before st = (st1, c)" "\<not> success st1"
    and "race (getTotalContracts (w k rc (length before))) 10000 ''getTotalContracts timeout'' = (t, Inr 0)"
  shows "while_retry k a w (before @ url # rest) rc st =
         (st1\<lparr>success := True,
              trace := trace st1 @ [LogAttemptRpc url (rc + 1) maxRetries, Call_getTotalContracts url a t,
                                    LogTotal k 0, LogNoContracts k]\<rparr>, Normal)"
proof -
  let ?st2 = "st1\<lparr>success := True,
              trace := trace st1 @ [LogAttemptRpc url (rc + 1) maxRetries, Call_getTotalContracts url a t,
                                    LogTotal k 0, LogNoContracts k]\<rparr>"
  have "try_catch k a (w k rc (length before)) rc url st1 = (?st2, Break)"
    by (rule try_catch_Break) (rule try_body_count_zero[OF assms(5)])
  then have "for_rpcUrls k a w rc (0 + length before) (url # rest) st1 = (?st2, Normal)"
    by simp
  with for_rpcUrls_append[OF assms(3,4), of "url # rest"]
  have "for_rpcUrls k a w rc 0 (before @ url # rest) st = (?st2, Normal)" by simp
  from while_retry_round_success[OF assms(1,2) this] show ?thesis by simp
qed

subsection \<open>Chains whose endpoints all fail\<close>

lemma try_catch_transient:
  assumes "fails_transiently rpc"
  shows "\<exists>evs. try_catch k a rpc rc url st = (st\<lparr>trace := trace st @ evs\<rparr>, Continue) \<and>
               sleeps evs = [] \<and> attempts evs = [(url, rc + 1)]"
proof (cases "snd (race (getTotalContracts rpc) 10000 ''getTotalContracts timeout'')")
  case (Inl e)
  then obtain t where r: "race (getTotalContracts rpc) 10000 ''getTotalContracts timeout'' = (t, Inl e)"
    by (cases "race (getTotalContracts rpc) 10000 ''getTotalContracts timeout''") simp
  from assms Inl have e: "isRpcError e" by (simp add: fails_transiently_def)
  let ?evs = "[LogAttemptRpc url (rc + 1) maxRetries, Call_getTotalContracts url a t,
               WarnRpcFailed url (message e)]"
  have "try_catch k a rpc rc url st = (st\<lparr>trace := trace st @ ?evs\<rparr>, Continue)"
    using r e by (simp add: try_catch_def try_body_def emit_def)
  moreover have "sleeps ?evs = []" "attempts ?evs = [(url, rc + 1)]"
    by (simp_all add: delay_of_def attempt_of_def)
  ultimately show ?thesis by blast
next
  case (Inr n)
  then obtain t where r: "race (getTotalContracts rpc) 10000 ''getTotalContracts timeout'' = (t, Inr n)"
    by (cases "race (getTotalContracts rpc) 10000 ''getTotalContracts timeout''") simp
  from assms Inr have n: "n \<noteq> 0" by (simp add: fails_transiently_def)
  from assms Inr obtain e where
    e: "snd (race (getAllAudits rpc 0 n) 20000 ''getAllAudits timeout'') = Inl e" "isRpcError e"
    by (auto simp add: fails_transiently_def split: sum.splits)
  then obtain t' where r': "race (getAllAudits rpc 0 n) 20000 ''getAllAudits timeout'' = (t', Inl e)"
    by (cases "race (getAllAudits rpc 0 n) 20000 ''getAllAudits timeout''") simp
  let ?evs = "[LogAttemptRpc url (rc + 1) maxRetries, Call_getTotalContracts url a t,
               LogTotal k n, Call_getAllAudits url a 0 n t', WarnRpcFailed url (message e)]"
  have "try_catch k a rpc rc url st = (st\<lparr>trace := trace st @ ?evs\<rparr>, Continue)"
    using r r' n e(2) by (simp add: try_catch_def try_body_def emit_def)
  moreover have "sleeps ?evs = []" "attempts ?evs = [(url, rc + 1)]"
    by (simp_all add: delay_of_def attempt_of_def)
  ultimately show ?thesis by blast
qed

lemma for_rpcUrls_transient:
  "\<forall>i<length urls. fails_transiently (w k rc (n + i)) \<Longrightarrow>
   \<exists>evs. for_rpcUrls k a w rc n urls st = (st\<lparr>trace := trace st @ evs\<rparr>, Normal) \<and>
         sleeps evs = [] \<and> attempts evs = map (\<lambda>u. (u, rc + 1)) urls"
proof (induction urls arbitrary: n st)
  case Nil
  show ?case by (intro exI[of _ "[]"]) simp
next
  case (Cons url rest)
  from Cons.prems have "fails_transiently (w k rc n)" by auto
  from try_catch_transient[OF this, of k a rc url st] obtain evs where
    tc: "try_catch k a (w k rc n) rc url st = (st\<lparr>trace := trace st @ evs\<rparr>, Continue)"
    and evs: "sleeps evs = []" "attempts evs = [(url, rc + 1)]" by blast
  from Cons.prems have "\<forall>i<length rest. fails_transiently (w k rc (n + 1 + i))" by auto
  from Cons.IH[OF this, of "st\<lparr>trace := trace st @ evs\<rparr>"] obtain evs' where
    fr: "for_rpcUrls k a w rc (n + 1) rest (st\<lparr>trace := trace st @ evs\<rparr>) =
         (st\<lparr>trace := trace st @ evs @ evs'\<rparr>, Normal)"
    and evs': "sleeps evs' = []" "attempts evs' = map (\<lambda>u. (u, rc + 1)) rest" by auto
  from tc fr have "for_rpcUrls k a w rc n (url # rest) st = (st\<lparr>trace := trace st @ (evs @ evs')\<rparr>, Normal)"
    by simp
  moreover from evs evs' have "sleeps (evs @ evs') = []"
    "attempts (evs @ evs') = map (\<lambda>u. (u, rc + 1)) (url # rest)" by simp_all
  ultimately show ?case by blast
qed

lemma while_retry_transient:
  assumes fails: "\<forall>rc<maxRetries. \<forall>i<length urls. fails_transiently (w k rc i)"
    and ns: "\<not> success st"
  shows "\<exists>e0 e1 e2.
           while_retry k a w urls 0 st =
             (st\<lparr>trace := trace st @ e0 @ [LogRetry k (baseDelay * 2 ^ 1), Sleep (baseDelay * 2 ^ 1)] @
                                      e1 @ [LogRetry k (baseDelay * 2 ^ 2), Sleep (baseDelay * 2 ^ 2)] @
                                      e2\<rparr>, Normal) \<and>
           failed_round urls 1 e0 \<and> failed_round urls 2 e1 \<and> failed_round urls 3 e2"
proof -
  have f0: "\<forall>i<length urls. fails_transiently (w k 0 (0 + i))"
    and f1: "\<forall>i<length urls. fails_transiently (w k 1 (0 + i))"
    and f2: "\<forall>i<length urls. fails_transiently (w k 2 (0 + i))"
    using fails by (simp_all add: maxRetries_def)
  let ?d1 = "baseDelay * 2 ^ 1" and ?d2 = "baseDelay * 2 ^ 2"
  from f0 for_rpcUrls_transient[where urls=urls and w=w and k=k and rc=0 and n=0 and a=a and st="st"] obtain e0 where
    r0: "for_rpcUrls k a w 0 0 urls st = (st\<lparr>trace := trace st @ e0\<rparr>, Normal)"
    and e0: "sleeps e0 = []" "attempts e0 = map (\<lambda>u. (u, 0 + 1)) urls"
    by auto
  let ?s1 = "st\<lparr>trace := trace st @ e0 @ [LogRetry k ?d1, Sleep ?d1]\<rparr>"
  from f1 for_rpcUrls_transient[where urls=urls and w=w and k=k and rc=1 and n=0 and a=a and st="?s1"] obtain e1 where
    r1: "for_rpcUrls k a w 1 0 urls ?s1 = (?s1\<lparr>trace := trace ?s1 @ e1\<rparr>, Normal)"
    and e1: "sleeps e1 = []" "attempts e1 = map (\<lambda>u. (u, 1 + 1)) urls"
    by auto
  let ?s2 = "st\<lparr>trace := trace st @ e0 @ [LogRetry k ?d1, Sleep ?d1] @ e1 @ [LogRetry k ?d2, Sleep ?d2]\<rparr>"
  from f2 for_rpcUrls_transient[where urls=urls and w=w and k=k and rc=2 and n=0 and a=a and st="?s2"] obtain e2 where
    r2: "for_rpcUrls k a w 2 0 urls ?s2 = (?s2\<lparr>trace := trace ?s2 @ e2\<rparr>, Normal)"
    and e2: "sleeps e2 = []" "attempts e2 = map (\<lambda>u. (u, 2 + 1)) urls"
    by auto
  let ?evs = "e0 @ [LogRetry k ?d1, Sleep ?d1] @ e1 @ [LogRetry k ?d2, Sleep ?d2] @ e2"
  have w3: "while_retry k a w urls 3 s = (s, Normal)" for s
    by (subst while_retry.simps) (simp add: maxRetries_def)
  have w2: "while_retry k a w urls 2 ?s2 = (st\<lparr>trace := trace st @ ?evs\<rparr>, Normal)"
    using ns r2 w3 by (subst while_retry.simps) (simp add: numeral_2_eq_2 numeral_3_eq_3 maxRetries_def)
  have w1: "while_retry k a w urls 1 ?s1 = (st\<lparr>trace := trace st @ ?evs\<rparr>, Normal)"
    using ns r1 w2 by (subst while_retry.simps) (simp add: numeral_2_eq_2 numeral_3_eq_3 maxRetries_def emit_def)
  have w0: "while_retry k a w urls 0 st = (st\<lparr>trace := trace st @ ?evs\<rparr>, Normal)"
    using ns r0 w1 by (subst while_retry.simps) (simp add: numeral_2_eq_2 numeral_3_eq_3 maxRetries_def emit_def)
  have "failed_round urls 1 e0" "failed_round urls 2 e1" "failed_round urls 3 e2"
    using e0 e1 e2 by (simp_all add: failed_round_def)
  with w0 show ?thesis by blast
qed

subsection \<open>Chain keys of the records\<close>

lemma tagged_simps [simp]:
  "tagged k (emit e st) = tagged k st"
  "tagged k (st\<lparr>success := b\<rparr>) = tagged k st"
  "tagged k (push r st) = (tagged k st \<and> chain r = k)"
  by (auto simp add: tagged_def emit_def push_def)

lemma forEach_tagged: "tagged k st \<Longrightarrow> tagged k (fst (forEach k r i idx batch st))"
  by (induction batch arbitrary: idx st)
     (auto split: sum.splits option.splits prod.splits)

lemma for_batches_tagged: "tagged k st \<Longrightarrow> tagged k (fst (for_batches k r hs i st))"
proof (induction k r hs i st rule: for_batches.induct)
  case (1 k r hs i st)
  show ?case
  proof (cases "i < length hs")
    case False
    with "1.prems" show ?thesis by (simp add: for_batches.simps[of k r hs i])
  next
    case True
    obtain st1 c where fe: "forEach k r i 0 (slice hs i (i + batchSize)) st = (st1, c)"
      by (cases "forEach k r i 0 (slice hs i (i + batchSize)) st")
    with forEach_tagged[OF "1.prems", of r i 0 "slice hs i (i + batchSize)"]
    have t1: "tagged k st1" by simp
    show ?thesis
    proof (cases "is_Throw c")
      case True
      with \<open>i < length hs\<close> fe t1 show ?thesis
        by (simp add: for_batches.simps[of k r hs i])
    next
      case False
      from t1 have "tagged k (emit (Sleep 10) st1)" by simp
      from "1.IH"[OF True refl fe[symmetric] False this] True False fe show ?thesis
        by (simp add: for_batches.simps[of k r hs i])
    qed
  qed
qed

lemma for_batches_taggedD:
  "for_batches k r hs i st = (st', c) \<Longrightarrow> tagged k st \<Longrightarrow> tagged k st'"
  using for_batches_tagged[of k st r hs i] by simp

lemma try_body_tagged: "tagged k st \<Longrightarrow> tagged k (fst (try_body k a rpc rc url st))"
  by (auto simp add: try_body_def Let_def
           split: prod.splits sum.splits js_result.splits option.splits
           dest!: for_batches_taggedD)

lemma try_catch_tagged: "tagged k st \<Longrightarrow> tagged k (fst (try_catch k a rpc rc url st))"
  using try_body_tagged[of k st a rpc rc url]
  by (auto simp add: try_catch_def split: prod.splits completion.splits)

lemma for_rpcUrls_tagged: "tagged k st \<Longrightarrow> tagged k (fst (for_rpcUrls k a w rc n urls st))"
proof (induction urls arbitrary: n st)
  case Nil
  then show ?case by simp
next
  case (Cons url rest)
  obtain st1 c where tc: "try_catch k a (w k rc n) rc url st = (st1, c)"
    by (cases "try_catch k a (w k rc n) rc url st")
  with try_catch_tagged[OF Cons.prems, of a "w k rc n" rc url] have "tagged k st1" by simp
  with tc Cons.IH[of st1] show ?case by simp
qed

lemma while_retry_tagged: "tagged k st \<Longrightarrow> tagged k (fst (while_retry k a w urls rc st))"
proof (induction k a w urls rc st rule: while_retry.induct)
  case (1 k a w urls rc st)
  show ?case
  proof (cases "\<not> success st \<and> rc < maxRetries")
    case False
    with "1.prems" show ?thesis by (auto simp add: while_retry.simps[of k a w urls rc])
  next
    case True
    obtain st1 c where fr: "for_rpcUrls k a w rc 0 urls st = (st1, c)"
      by (cases "for_rpcUrls k a w rc 0 urls st")
    with for_rpcUrls_tagged[OF "1.prems", of a w rc 0 urls] have t1: "tagged k st1" by simp
    note IH = "1.IH"[OF True refl fr[symmetric]]
    from True fr IH t1 show ?thesis
      by (simp add: while_retry.simps[of k a w urls rc])
  qed
qed

lemma contribution_tagged: "r \<in> set (contribution addrs w (k, cd)) \<Longrightarrow> chain r = k"
proof -
  have "tagged k (fst (chain_body addrs w (k, cd) initial))"
  proof -
    have i: "tagged k initial" by (simp add: tagged_def initial_def)
    have "tagged k s'" if "while_retry k a w u 0 ((emit e initial)\<lparr>success := False\<rparr>) = (s', c)"
      for a u e s' c
      using while_retry_tagged[of k "(emit e initial)\<lparr>success := False\<rparr>" a w u 0] that i by simp
    then show ?thesis
      using i by (auto simp add: chain_body_def Let_def split: prod.splits option.splits)
  qed
  then show "r \<in> set (contribution addrs w (k, cd)) \<Longrightarrow> chain r = k"
    by (simp add: contribution_def tagged_def)
qed

subsection \<open>The body of the loop over the chains\<close>

lemma chain_body_first_ok:
  assumes "addrs k = Some a" "a \<noteq> []" "rpcUrls cd = url # rest"
    and "race (getTotalContracts (w k 0 0)) 10000 ''getTotalContracts timeout'' = (t, Inr n)"
    and "n \<noteq> 0"
    and "race (getAllAudits (w k 0 0) 0 n) 20000 ''getAllAudits timeout'' = (t', Inr (Obj r))"
    and "all_arrays r hs ss ms as ts"
  shows "chain_body addrs w (k, cd) st =
         (st\<lparr>allAudits := allAudits st @ records_of k hs ss ms as ts,
             success := True,
             trace := trace st @
               [LogAttemptChain k, LogAttemptRpc url 1 maxRetries, Call_getTotalContracts url a t,
                LogTotal k n, Call_getAllAudits url a 0 n t'] @
               replicate (length (batches hs 0)) (Sleep 10) @
               [LogProcessed (length hs) k]\<rparr>, Normal)"
proof -
  let ?s0 = "(emit (LogAttemptChain k) st)\<lparr>success := False\<rparr>"
  let ?s1 = "?s0\<lparr>allAudits := allAudits ?s0 @ records_of k hs ss ms as ts,
             success := True,
             trace := trace ?s0 @ [LogAttemptRpc url (0 + 1) maxRetries, Call_getTotalContracts url a t,
                                  LogTotal k n, Call_getAllAudits url a 0 n t'] @
                      replicate (length (batches hs 0)) (Sleep 10) @
                      [LogProcessed (length hs) k]\<rparr>"
  have "try_catch k a (w k 0 0) 0 url ?s0 = (?s1, Break)"
    by (rule try_catch_Break) (rule try_body_ok[OF assms(4,5,6,7)])
  then have "for_rpcUrls k a w 0 0 (url # rest) ?s0 = (?s1, Normal)"
    by (rule for_rpcUrls_Break)
  then have "while_retry k a w (url # rest) 0 ?s0 = (?s1, Normal)"
    by (intro while_retry_round_success[where c = Normal]) (simp_all add: maxRetries_def)
  then show ?thesis
    using assms(1,2,3) by (simp add: chain_body_def emit_def)
qed

lemma chain_body_no_address:
  assumes "addrs k = None \<or> addrs k = Some []"
  shows "chain_body addrs w (k, cd) st =
         (st\<lparr>trace := trace st @ [LogAttemptChain k, LogNoAddress k]\<rparr>, Continue)"
  using assms by (auto simp add: chain_body_def emit_def)

lemma chain_body_transient:
  assumes "addrs k = Some a" "a \<noteq> []"
    and "\<forall>rc<maxRetries. \<forall>i<length (rpcUrls cd). fails_transiently (w k rc i)"
  shows "\<exists>e0 e1 e2.
           chain_body addrs w (k, cd) st =
             (st\<lparr>success := False,
                 trace := trace st @ [LogAttemptChain k] @
                          e0 @ [LogRetry k (baseDelay * 2 ^ 1), Sleep (baseDelay * 2 ^ 1)] @
                          e1 @ [LogRetry k (baseDelay * 2 ^ 2), Sleep (baseDelay * 2 ^ 2)] @
                          e2 @ [LogFailed k maxRetries]\<rparr>, Normal) \<and>
           failed_round (rpcUrls cd) 1 e0 \<and> failed_round (rpcUrls cd) 2 e1 \<and>
           failed_round (rpcUrls cd) 3 e2"
proof -
  let ?s0 = "(emit (LogAttemptChain k) st)\<lparr>success := False\<rparr>"
  have ns: "\<not> success ?s0" by simp
  from assms(3) ns while_retry_transient[where urls="rpcUrls cd" and w=w and k=k and st="?s0" and a=a]
  obtain e0 e1 e2 where
    w: "while_retry k a w (rpcUrls cd) 0 ?s0 =
          (?s0\<lparr>trace := trace ?s0 @ e0 @ [LogRetry k (baseDelay * 2 ^ 1), Sleep (baseDelay * 2 ^ 1)] @
                                      e1 @ [LogRetry k (baseDelay * 2 ^ 2), Sleep (baseDelay * 2 ^ 2)] @
                                      e2\<rparr>, Normal)"
    and e: "failed_round (rpcUrls cd) 1 e0" "failed_round (rpcUrls cd) 2 e1"
           "failed_round (rpcUrls cd) 3 e2"
    by blast
  have "chain_body addrs w (k, cd) st =
             (st\<lparr>success := False,
                 trace := trace st @ [LogAttemptChain k] @
                          e0 @ [LogRetry k (baseDelay * 2 ^ 1), Sleep (baseDelay * 2 ^ 1)] @
                          e1 @ [LogRetry k (baseDelay * 2 ^ 2), Sleep (baseDelay * 2 ^ 2)] @
                          e2 @ [LogFailed k maxRetries]\<rparr>, Normal)"
    using assms(1,2) w by (simp add: chain_body_def emit_def)
  with e show ?thesis by blast
qed

subsection \<open>Sorting\<close>

lemma sort_desc_sorted: "sorted_wrt (\<lambda>a b. timestamp b \<le> timestamp a) (sort_desc xs)"
proof -
  have "sorted (map (\<lambda>a. - int (timestamp a)) (sort_desc xs))"
    unfolding sort_desc_def by (rule sorted_sort_key)
  then show ?thesis by (simp add: sorted_map)
qed

lemma mset_sort_desc: "mset (sort_desc xs) = mset xs"
  by (simp add: sort_desc_def)

lemma sorted_adjacent:
  assumes "sorted_wrt (\<lambda>a b. timestamp b \<le> timestamp a) xs" "Suc i < length xs"
  shows "timestamp (xs ! Suc i) \<le> timestamp (xs ! i)"
  using assms sorted_wrt_nth_less[of "\<lambda>a b. timestamp b \<le> timestamp a" xs i "Suc i"] by simp

subsection \<open>The example configuration\<close>

lemma race_rpc_ok:
  "race (getTotalContracts rpc_ok) 10000 ''getTotalContracts timeout'' = (120, Inr 2)"
  "race (getAllAudits rpc_ok 0 2) 20000 ''getAllAudits timeout'' = (300, Inr (Obj response_ex))"
  by (simp_all add: race_def rpc_ok_def)

lemma response_ex_arrays:
  "all_arrays response_ex [''0xaa'', ''0xbb''] [5, 3] [''ok'', ''bad''] [''0xA1'', ''0xB2''] [100, 200]"
  by (simp add: all_arrays_def response_ex_def)

lemma records_ex:
  "records_of ''goodnet'' [''0xaa'', ''0xbb''] [5, 3] [''ok'', ''bad''] [''0xA1'', ''0xB2''] [100, 200]
   = [record_aa, record_bb]"
  by (simp add: records_of_def common_length_def mkRecord_def record_aa_def record_bb_def
                upt_conv_Cons)

lemma rpc_down_fails: "fails_transiently rpc_down"
  by (simp add: fails_transiently_def race_def rpc_down_def isRpcError_def Error_def startsWith_def)

lemma contribution_good: "contribution addrs_ex world_ex chain_good = [record_aa, record_bb]"
proof -
  have w: "world_ex ''goodnet'' 0 0 = rpc_ok" by (simp add: world_ex_def)
  have "chain_body addrs_ex world_ex (''goodnet'', snd chain_good) initial =
        (initial\<lparr>allAudits := allAudits initial @ records_of ''goodnet'' [''0xaa'', ''0xbb''] [5, 3] [''ok'', ''bad''] [''0xA1'', ''0xB2''] [100, 200],
             success := True,
             trace := trace initial @
               [LogAttemptChain ''goodnet'', LogAttemptRpc ''v1'' 1 maxRetries, Call_getTotalContracts ''v1'' ''0xREG'' 120,
                LogTotal ''goodnet'' 2, Call_getAllAudits ''v1'' ''0xREG'' 0 2 300] @
               replicate (length (batches [''0xaa'', ''0xbb''] 0)) (Sleep 10) @
               [LogProcessed (length [''0xaa'', ''0xbb'']) ''goodnet'']\<rparr>, Normal)"
  proof (rule chain_body_first_ok[where rest = "[''v2'']" and r = response_ex and n = 2])
    show "addrs_ex ''goodnet'' = Some ''0xREG''" by (simp add: addrs_ex_def)
    show "''0xREG'' \<noteq> []" by simp
    show "rpcUrls (snd chain_good) = ''v1'' # [''v2'']" by (simp add: chain_good_def)
    show "race (getTotalContracts (world_ex ''goodnet'' 0 0)) 10000 ''getTotalContracts timeout'' = (120, Inr 2)"
      by (simp add: w race_rpc_ok)
    show "(2::nat) \<noteq> 0" by simp
    show "race (getAllAudits (world_ex ''goodnet'' 0 0) 0 2) 20000 ''getAllAudits timeout'' = (300, Inr (Obj response_ex))"
      by (simp add: w race_rpc_ok)
    show "all_arrays response_ex [''0xaa'', ''0xbb''] [5, 3] [''ok'', ''bad''] [''0xA1'', ''0xB2''] [100, 200]"
      by (rule response_ex_arrays)
  qed
  then show ?thesis
    by (simp add: contribution_def chain_good_def records_ex initial_def)
qed

lemma contribution_bad: "contribution addrs_ex world_ex chain_bad = []"
proof -
  have "\<forall>rc<maxRetries. \<forall>i<length (rpcUrls (snd chain_bad)). fails_transiently (world_ex ''badnet'' rc i)"
    by (simp add: world_ex_def rpc_down_fails)
  from chain_body_transient[where addrs=addrs_ex and k="''badnet''" and a="''0xBAD''" and cd="snd chain_bad"
        and w=world_ex and st=initial, OF _ _ this]
  show ?thesis
    by (auto simp add: contribution_def chain_bad_def addrs_ex_def initial_def)
qed

lemma contribution_noaddr: "contribution addrs_ex world_ex chain_noaddr = []"
  using chain_body_no_address[of addrs_ex "''noaddr''" world_ex "snd chain_noaddr" initial]
  by (simp add: contribution_def chain_noaddr_def addrs_ex_def initial_def)

lemma result_ex:
  "allAudits (fst (fetchAllChainAudits config_ex addrs_ex world_ex)) = [record_bb, record_aa]"
  by (simp add: fetchAll_allAudits config_ex_def contribution_good contribution_bad contribution_noaddr
                sort_desc_def record_aa_def record_bb_def)

subsection \<open>Contributions in the result\<close>

lemma contribution_in_result:
  "entry \<in> set config \<Longrightarrow>
   set (contribution addrs w entry) \<subseteq> set (allAudits (fst (fetchAllChainAudits config addrs w)))"
proof -
  assume "entry \<in> set config"
  have "set (allAudits (fst (fetchAllChainAudits config addrs w))) =
        set (concat (map (contribution addrs w) config))"
    using mset_sort_desc[of "concat (map (contribution addrs w) config)"]
    by (metis fetchAll_allAudits set_mset_mset)
  with \<open>entry \<in> set config\<close> show ?thesis by auto
qed

subsection \<open>The batches\<close>

lemma for_batches_run: "for_batches k r hs i st = run_batches k r i (batches hs i) st"
proof (induction k r hs i st rule: for_batches.induct)
  case (1 k r hs i st)
  show ?case
  proof (cases "i < length hs")
    case False
    then show ?thesis by (simp add: for_batches.simps[of k r hs i] batches.simps[of hs i])
  next
    case True
    obtain st1 c where fe: "forEach k r i 0 (slice hs i (i + batchSize)) st = (st1, c)"
      by (cases "forEach k r i 0 (slice hs i (i + batchSize)) st")
    show ?thesis
    proof (cases "is_Throw c")
      case True
      with \<open>i < length hs\<close> fe show ?thesis
        by (simp add: for_batches.simps[of k r hs i] batches.simps[of hs i])
    next
      case False
      with True fe "1.IH"[OF True refl fe[symmetric] False] show ?thesis
        by (simp add: for_batches.simps[of k r hs i] batches.simps[of hs i])
    qed
  qed
qed

lemma concat_batches: "concat (batches hs i) = drop i hs"
proof (induction hs i rule: batches.induct)
  case (1 hs i)
  show ?case
  proof (cases "i < length hs")
    case False
    then show ?thesis by (simp add: batches.simps[of hs i])
  next
    case True
    have "take batchSize (drop i hs) @ drop (i + batchSize) hs = drop i hs"
      by (metis add.commute append_take_drop_id drop_drop)
    with True "1.IH"[OF True] show ?thesis
      by (simp add: batches.simps[of hs i] slice_def)
  qed
qed

lemma batches_120: "length hs = 120 \<Longrightarrow> map length (batches hs 0) = [50, 50, 20]"
  by (simp add: batches.simps[of hs 0] batches.simps[of hs 50] batches.simps[of hs 100]
                batches.simps[of hs 150] batchSize_def slice_def)

lemma race_Fulfils: "t < ms \<Longrightarrow> race (Fulfils t v) ms msg = (t, Inr v)"
  by (simp add: race_def)

lemma records_of_chain: "x \<in> set (records_of k hs ss ms as ts) \<Longrightarrow> chain x = k"
  by (auto simp add: records_of_def mkRecord_def)

lemma length_records_of: "length (records_of k hs ss ms as ts) = common_length hs ss ms as ts"
  by (simp add: records_of_def)

lemma sleeps_replicate [simp]: "sleeps (replicate n (Sleep ms)) = replicate n ms"
  by (induction n) (simp_all add: delay_of_def)

subsection \<open>Backoff of a failing chain\<close>

lemma sum_backoff: "baseDelay * 2 ^ 1 + baseDelay * 2 ^ 2 = baseDelay * (2 + 4)"
  by (simp add: baseDelay_def)

lemma events_transient:
  assumes "addrs k = Some a" "a \<noteq> []"
    and "\<forall>rc<maxRetries. \<forall>i<length (rpcUrls cd). fails_transiently (w k rc i)"
  shows "contribution addrs w (k, cd) = [] \<and>
         (\<exists>e0 e1 e2.
            events addrs w (k, cd) =
              [LogAttemptChain k] @
              e0 @ [LogRetry k (baseDelay * 2 ^ 1), Sleep (baseDelay * 2 ^ 1)] @
              e1 @ [LogRetry k (baseDelay * 2 ^ 2), Sleep (baseDelay * 2 ^ 2)] @
              e2 @ [LogFailed k maxRetries] \<and>
            failed_round (rpcUrls cd) 1 e0 \<and> failed_round (rpcUrls cd) 2 e1 \<and>
            failed_round (rpcUrls cd) 3 e2) \<and>
         sleeps (events addrs w (k, cd)) = [baseDelay * 2 ^ 1, baseDelay * 2 ^ 2] \<and>
         sum_list (sleeps (events addrs w (k, cd))) = baseDelay * (2 + 4) \<and>
         attempts (events addrs w (k, cd)) =
           concat (map (\<lambda>n. map (\<lambda>u. (u, n)) (rpcUrls cd)) [1, 2, 3])"
proof -
  from chain_body_transient[where addrs=addrs and k=k and w=w and st=initial, OF assms]
  obtain e0 e1 e2 where
    run: "chain_body addrs w (k, cd) initial =
             (initial\<lparr>success := False,
                 trace := trace initial @ [LogAttemptChain k] @
                          e0 @ [LogRetry k (baseDelay * 2 ^ 1), Sleep (baseDelay * 2 ^ 1)] @
                          e1 @ [LogRetry k (baseDelay * 2 ^ 2), Sleep (baseDelay * 2 ^ 2)] @
                          e2 @ [LogFailed k maxRetries]\<rparr>, Normal)"
    and r: "failed_round (rpcUrls cd) 1 e0" "failed_round (rpcUrls cd) 2 e1"
           "failed_round (rpcUrls cd) 3 e2"
    by blast
  have con: "contribution addrs w (k, cd) = []"
    using run by (simp add: contribution_def initial_def)
  have ev: "events addrs w (k, cd) =
              [LogAttemptChain k] @
              e0 @ [LogRetry k (baseDelay * 2 ^ 1), Sleep (baseDelay * 2 ^ 1)] @
              e1 @ [LogRetry k (baseDelay * 2 ^ 2), Sleep (baseDelay * 2 ^ 2)] @
              e2 @ [LogFailed k maxRetries]"
    using run by (simp add: events_def initial_def)
  have sl: "sleeps (events addrs w (k, cd)) = [baseDelay * 2 ^ 1, baseDelay * 2 ^ 2]"
    using r by (simp add: ev failed_round_def delay_of_def)
  have su: "sum_list (sleeps (events addrs w (k, cd))) = baseDelay * (2 + 4)"
    unfolding sl using sum_backoff by simp
  have at: "attempts (events addrs w (k, cd)) =
           concat (map (\<lambda>n. map (\<lambda>u. (u, n)) (rpcUrls cd)) [1, 2, 3])"
    using r by (simp add: ev failed_round_def attempt_of_def)
  from con ev r sl su at show ?thesis by blast
qed

lemma world_ex_bad: "\<forall>rc<maxRetries. \<forall>i<length (rpcUrls (snd chain_bad)). fails_transiently (world_ex ''badnet'' rc i)"
  by (simp add: world_ex_def rpc_down_fails)

lemma addrs_ex_bad: "addrs_ex ''badnet'' = Some ''0xBAD''" "''0xBAD'' \<noteq> []"
  by (simp_all add: addrs_ex_def)

lemma chain_bad_eq: "(''badnet'', snd chain_bad) = chain_bad"
  by (simp add: chain_bad_def)

subsection \<open>Attempts that do not succeed add nothing\<close>

lemma try_body_Throw_or_Break:
  "snd (try_body k a rpc rc url st) = Break \<or> is_Throw (snd (try_body k a rpc rc url st))"
  by (auto simp add: try_body_def Let_def split: prod.splits sum.splits js_result.splits option.splits)

lemma try_catch_not_Break_unchanged:
  assumes "snd (try_catch k a rpc rc url st) \<noteq> Break"
  shows "allAudits (fst (try_catch k a rpc rc url st)) = allAudits st"
proof -
  obtain st1 c where tb: "try_body k a rpc rc url st = (st1, c)"
    by (cases "try_body k a rpc rc url st")
  from assms tb have "c \<noteq> Break"
    by (auto simp add: try_catch_def split: completion.splits if_splits)
  with try_body_Throw_or_Break[of k a rpc rc url st] tb have th: "is_Throw c" by simp
  with try_body_throw_unchanged[of k a rpc rc url st] tb have "allAudits st1 = allAudits st" by simp
  with tb th show ?thesis
    by (cases c) (simp_all add: try_catch_def emit_def)
qed

lemma for_rpcUrls_unsuccessful_unchanged:
  "\<not> success (fst (for_rpcUrls k a w rc n urls st)) \<Longrightarrow>
   allAudits (fst (for_rpcUrls k a w rc n urls st)) = allAudits st"
proof (induction urls arbitrary: n st)
  case Nil
  show ?case by simp
next
  case (Cons url rest)
  obtain st1 c where tc: "try_catch k a (w k rc n) rc url st = (st1, c)"
    by (cases "try_catch k a (w k rc n) rc url st")
  have nb: "c \<noteq> Break"
  proof
    assume "c = Break"
    with tc Cons.prems show False by (auto dest: try_catch_Break_success)
  qed
  from tc have nt: "\<not> is_Throw c" by (rule try_catch_no_throwD)
  from nb tc try_catch_not_Break_unchanged[of k a "w k rc n" rc url st]
  have u: "allAudits st1 = allAudits st" by simp
  from Cons.prems tc nb nt have "\<not> success (fst (for_rpcUrls k a w rc (n + 1) rest st1))" by simp
  from Cons.IH[OF this] tc nb nt u show ?case by simp
qed

subsection \<open>The filter of the reports page\<close>

lemma getFilteredReports_subseq: "subseq (getFilteredReports nowMs filters reports) reports"
  by (simp add: getFilteredReports_def)

subsection \<open>Shape of the trace of a chain\<close>

lemma wait_bounded_replicate_Sleep [simp]: "list_all wait_bounded (replicate n (Sleep ms))"
  by (induction n) (simp_all add: wait_bounded_def)

lemma for_batches_traceD:
  "for_batches k r hs i st = (st', c) \<Longrightarrow> \<exists>n. trace st' = trace st @ replicate n (Sleep 10)"
  using for_batches_trace[of k r hs i st] by simp

lemma try_body_trace_shape:
  "\<exists>evs. trace (fst (try_body k a rpc rc url st)) = trace st @ LogAttemptRpc url (rc + 1) maxRetries # evs \<and>
         attempts evs = [] \<and> list_all wait_bounded evs"
proof -
  obtain t1 r1 where c: "race (getTotalContracts rpc) 10000 ''getTotalContracts timeout'' = (t1, r1)"
    by (cases "race (getTotalContracts rpc) 10000 ''getTotalContracts timeout''")
  with race_le[of "getTotalContracts rpc" 10000 "''getTotalContracts timeout''"]
  have t1: "t1 \<le> 10000" by simp
  show ?thesis
  proof (cases r1)
    case (Inl e)
    with c t1 show ?thesis
      by (simp add: try_body_def emit_def attempt_of_def wait_bounded_def)
  next
    case (Inr n)
    show ?thesis
    proof (cases "n = 0")
      case True
      with c t1 Inr show ?thesis
        by (simp add: try_body_def emit_def attempt_of_def wait_bounded_def)
    next
      case False
      obtain t2 r2 where b: "race (getAllAudits rpc 0 n) 20000 ''getAllAudits timeout'' = (t2, r2)"
        by (cases "race (getAllAudits rpc 0 n) 20000 ''getAllAudits timeout''")
      with race_le[of "getAllAudits rpc 0 n" 20000 "''getAllAudits timeout''"]
      have t2: "t2 \<le> 20000" by simp
      let ?st4 = "st\<lparr>trace := trace st @ [LogAttemptRpc url (rc + 1) maxRetries,
                     Call_getTotalContracts url a t1, LogTotal k n, Call_getAllAudits url a 0 n t2]\<rparr>"
      have simple: ?thesis if "try_body k a rpc rc url st = (?st4, x)" for x
        using that t1 t2 by (simp add: attempt_of_def wait_bounded_def)
      show ?thesis
      proof (cases r2)
        case (Inl e)
        with c b Inr False have "try_body k a rpc rc url st = (?st4, Throw e)"
          by (simp add: try_body_def emit_def)
        then show ?thesis by (rule simple)
      next
        case res: (Inr res)
        show ?thesis
        proof (cases res)
          case Null
          with c b Inr False res
          have "try_body k a rpc rc url st = (?st4, Throw (Error ''Invalid response format''))"
            by (simp add: try_body_def emit_def)
          then show ?thesis by (rule simple)
        next
          case (Obj r)
          show ?thesis
          proof (cases "contractHashes r")
            case None
            with c b Inr False res Obj
            have "try_body k a rpc rc url st = (?st4, Throw (Error ''Invalid response format''))"
              by (simp add: try_body_def emit_def)
            then show ?thesis by (rule simple)
          next
            case (Some hs)
            obtain st5 c5 where fb: "for_batches k r hs 0 ?st4 = (st5, c5)"
              by (cases "for_batches k r hs 0 ?st4")
            from for_batches_traceD[OF fb] obtain m where
              m: "trace st5 = trace ?st4 @ replicate m (Sleep 10)" by blast
            from c b Inr False res Obj Some fb
            have "trace (fst (try_body k a rpc rc url st)) =
                  (if is_Throw c5 then trace st5 else trace st5 @ [LogProcessed (length hs) k])"
              by (simp add: try_body_def emit_def)
            with m t1 t2 show ?thesis
              by (simp add: attempt_of_def wait_bounded_def)
          qed
        qed
      qed
    qed
  qed
qed

lemma try_catch_trace_shape:
  "\<exists>evs. trace (fst (try_catch k a rpc rc url st)) = trace st @ evs \<and>
         attempts evs = [(url, rc + 1)] \<and> list_all wait_bounded evs"
proof -
  from try_body_trace_shape[of k a rpc rc url st] obtain evs where
    e: "trace (fst (try_body k a rpc rc url st)) = trace st @ LogAttemptRpc url (rc + 1) maxRetries # evs"
       "attempts evs = []" "list_all wait_bounded evs" by blast
  obtain st1 c where tb: "try_body k a rpc rc url st = (st1, c)"
    by (cases "try_body k a rpc rc url st")
  with e(1) have t1: "trace st1 = trace st @ LogAttemptRpc url (rc + 1) maxRetries # evs" by simp
  have "\<exists>x. trace (fst (try_catch k a rpc rc url st)) = trace st1 @ x \<and> attempts x = [] \<and>
            list_all wait_bounded x"
  proof (cases c)
    case (Throw err)
    with tb show ?thesis
      by (cases "isRpcError err")
         (simp_all add: try_catch_def emit_def attempt_of_def wait_bounded_def)
  qed (use tb in \<open>simp_all add: try_catch_def\<close>)
  then obtain x where x: "trace (fst (try_catch k a rpc rc url st)) = trace st1 @ x"
    "attempts x = []" "list_all wait_bounded x" by blast
  let ?evs = "LogAttemptRpc url (rc + 1) maxRetries # evs @ x"
  have "trace (fst (try_catch k a rpc rc url st)) = trace st @ ?evs"
    using x(1) t1 by simp
  moreover have "attempts ?evs = [(url, rc + 1)]"
    using e(2) x(2) by (simp add: attempt_of_def)
  moreover have "list_all wait_bounded ?evs"
    using e(3) x(3) by (simp add: wait_bounded_def)
  ultimately show ?thesis by blast
qed

lemma for_rpcUrls_trace_shape:
  "\<exists>m evs. m \<le> length urls \<and>
     trace (fst (for_rpcUrls k a w rc n urls st)) = trace st @ evs \<and>
     attempts evs = map (\<lambda>u. (u, rc + 1)) (take m urls) \<and> list_all wait_bounded evs"
proof (induction urls arbitrary: n st)
  case Nil
  have "trace (fst (for_rpcUrls k a w rc n [] st)) = trace st @ []" by simp
  then show ?case by fastforce
next
  case (Cons url rest)
  obtain st1 c where tc: "try_catch k a (w k rc n) rc url st = (st1, c)"
    by (cases "try_catch k a (w k rc n) rc url st")
  from try_catch_trace_shape[of k a "w k rc n" rc url st] tc obtain e1 where
    e1: "trace st1 = trace st @ e1" "attempts e1 = [(url, rc + 1)]" "list_all wait_bounded e1"
    by auto
  from tc have nt: "\<not> is_Throw c" by (rule try_catch_no_throwD)
  show ?case
  proof (cases "c = Break")
    case True
    with tc have "trace (fst (for_rpcUrls k a w rc n (url # rest) st)) = trace st @ e1"
      by (simp add: e1(1))
    moreover have "attempts e1 = map (\<lambda>u. (u, rc + 1)) (take 1 (url # rest))"
      by (simp add: e1(2))
    moreover have "(1::nat) \<le> length (url # rest)" by simp
    ultimately show ?thesis using e1(3) by blast
  next
    case False
    from Cons.IH[of "n + 1" st1] obtain m e2 where
      m: "m \<le> length rest"
      and e2: "trace (fst (for_rpcUrls k a w rc (n + 1) rest st1)) = trace st1 @ e2"
        "attempts e2 = map (\<lambda>u. (u, rc + 1)) (take m rest)" "list_all wait_bounded e2"
      by blast
    from tc False nt e1(1) e2(1)
    have "trace (fst (for_rpcUrls k a w rc n (url # rest) st)) = trace st @ (e1 @ e2)"
      by simp
    moreover have "attempts (e1 @ e2) = map (\<lambda>u. (u, rc + 1)) (take (Suc m) (url # rest))"
      by (simp add: e1(2) e2(2))
    moreover have "Suc m \<le> length (url # rest)" using m by simp
    moreover have "list_all wait_bounded (e1 @ e2)" using e1(3) e2(3) by simp
    ultimately show ?thesis by blast
  qed
qed

lemma while_retry_trace_shape:
  "\<exists>ns evs. length ns \<le> maxRetries - rc \<and> list_all (\<lambda>m. m \<le> length urls) ns \<and>
     trace (fst (while_retry k a w urls rc st)) = trace st @ evs \<and>
     attempts evs = rounds urls (rc + 1) ns \<and> list_all wait_bounded evs"
proof (induction k a w urls rc st rule: while_retry.induct)
  case (1 k a w urls rc st)
  show ?case
  proof (cases "\<not> success st \<and> rc < maxRetries")
    case False
    then have "trace (fst (while_retry k a w urls rc st)) = trace st @ []"
      by (auto simp add: while_retry.simps[of k a w urls rc])
    moreover have "attempts [] = rounds urls (rc + 1) []" by simp
    moreover have "length ([]::nat list) \<le> maxRetries - rc" by simp
    moreover have "list_all (\<lambda>m. m \<le> length urls) []" by simp
    moreover have "list_all wait_bounded []" by simp
    ultimately show ?thesis by blast
  next
    case True
    obtain st1 c where fr: "for_rpcUrls k a w rc 0 urls st = (st1, c)"
      by (cases "for_rpcUrls k a w rc 0 urls st")
    with for_rpcUrls_Normal[of k a w rc 0 urls st] have c: "\<not> is_Throw c" by simp
    from for_rpcUrls_trace_shape[of urls k a w rc 0 st] fr obtain m e1 where
      m: "m \<le> length urls"
      and e1: "trace st1 = trace st @ e1" "attempts e1 = map (\<lambda>u. (u, rc + 1)) (take m urls)"
        "list_all wait_bounded e1"
      by auto
    show ?thesis
    proof (cases "success st1")
      case s1: True
      with True fr c have "trace (fst (while_retry k a w urls rc st)) = trace st @ e1"
        by (simp add: while_retry.simps[of k a w urls rc] while_retry_done e1(1))
      moreover have "attempts e1 = rounds urls (rc + 1) [m]" by (simp add: e1(2))
      moreover have "length [m] \<le> maxRetries - rc" using True by auto
      moreover have "list_all (\<lambda>m. m \<le> length urls) [m]" using m by simp
      ultimately show ?thesis using e1(3) by blast
    next
      case s1: False
      let ?d = "baseDelay * 2 ^ (rc + 1)"
      let ?st2 = "if rc + 1 < maxRetries then emit (Sleep ?d) (emit (LogRetry k ?d) st1) else st1"
      let ?x = "if rc + 1 < maxRetries then [LogRetry k ?d, Sleep ?d] else []"
      have w: "while_retry k a w urls rc st = while_retry k a w urls (rc + 1) ?st2"
        using True fr c s1 by (simp add: while_retry.simps[of k a w urls rc])
      have t2: "trace ?st2 = trace st @ e1 @ ?x" by (simp add: emit_def e1(1))
      have "\<exists>ns evs. length ns \<le> maxRetries - (rc + 1) \<and> list_all (\<lambda>m. m \<le> length urls) ns \<and>
               trace (fst (while_retry k a w urls (rc + 1) ?st2)) = trace ?st2 @ evs \<and>
               attempts evs = rounds urls (rc + 1 + 1) ns \<and> list_all wait_bounded evs"
      proof (cases "rc + 1 < maxRetries")
        case lt: True
        from "1.IH"(1)[OF True refl fr[symmetric] c s1 lt] lt show ?thesis by simp
      next
        case ge: False
        from "1.IH"(2)[OF True refl fr[symmetric] c s1 ge] ge show ?thesis by simp
      qed
      then obtain ns e2 where
        ns: "length ns \<le> maxRetries - (rc + 1)" "list_all (\<lambda>m. m \<le> length urls) ns"
        and e2: "trace (fst (while_retry k a w urls (rc + 1) ?st2)) = trace ?st2 @ e2"
          "attempts e2 = rounds urls (rc + 1 + 1) ns" "list_all wait_bounded e2"
        by blast
      let ?evs = "e1 @ ?x @ e2"
      have "trace (fst (while_retry k a w urls rc st)) = trace st @ ?evs"
        unfolding w e2(1) t2 by simp
      moreover have "attempts ?evs = rounds urls (rc + 1) (m # ns)"
        using e1(2) e2(2) by (simp add: attempt_of_def)
      moreover have "list_all wait_bounded ?evs"
        using e1(3) e2(3) by (simp add: wait_bounded_def)
      moreover have "length (m # ns) \<le> maxRetries - rc" using ns(1) True by auto
      moreover have "list_all (\<lambda>m. m \<le> length urls) (m # ns)" using m ns(2) by simp
      ultimately show ?thesis by blast
    qed
  qed
qed

lemma length_rounds:
  "list_all (\<lambda>m. m \<le> length urls) ns \<Longrightarrow> length (rounds urls n ns) \<le> length ns * length urls"
proof (induction ns arbitrary: n)
  case Nil
  show ?case by simp
next
  case (Cons m ns)
  from Cons.prems have "m \<le> length urls" "list_all (\<lambda>m. m \<le> length urls) ns" by simp_all
  with Cons.IH[of "Suc n"] show ?case by simp
qed

lemma chain_body_completion:
  "snd (chain_body addrs w e st) = Normal \<or> snd (chain_body addrs w e st) = Continue"
  by (auto simp add: chain_body_def Let_def split: prod.splits option.splits
           dest: while_retry_NormalD)

lemma events_shape:
  "\<exists>ns. length ns \<le> maxRetries \<and> list_all (\<lambda>m. m \<le> length (rpcUrls cd)) ns \<and>
        attempts (events addrs w (k, cd)) = rounds (rpcUrls cd) 1 ns \<and>
        list_all wait_bounded (events addrs w (k, cd))"
proof -
  have skip: ?thesis if "events addrs w (k, cd) = [LogAttemptChain k, LogNoAddress k]"
  proof -
    have "attempts (events addrs w (k, cd)) = rounds (rpcUrls cd) 1 []"
      by (simp add: that attempt_of_def)
    moreover have "list_all wait_bounded (events addrs w (k, cd))"
      by (simp add: that wait_bounded_def)
    moreover have "length ([]::nat list) \<le> maxRetries" "list_all (\<lambda>m. m \<le> length (rpcUrls cd)) []"
      by simp_all
    ultimately show ?thesis by blast
  qed
  show ?thesis
  proof (cases "addrs k = None \<or> addrs k = Some []")
    case True
    from chain_body_no_address[of addrs k, OF True, of w cd initial] show ?thesis
      by (intro skip) (simp add: events_def initial_def)
  next
    case False
    then obtain a where a: "addrs k = Some a" "a \<noteq> []" by auto
    let ?s0 = "(emit (LogAttemptChain k) initial)\<lparr>success := False\<rparr>"
    obtain st2 c where wr: "while_retry k a w (rpcUrls cd) 0 ?s0 = (st2, c)"
      by (cases "while_retry k a w (rpcUrls cd) 0 ?s0")
    from while_retry_trace_shape[of 0 "rpcUrls cd" k a w ?s0] wr obtain ns evs where
      ns: "length ns \<le> maxRetries" "list_all (\<lambda>m. m \<le> length (rpcUrls cd)) ns"
      and evs: "trace st2 = trace ?s0 @ evs" "attempts evs = rounds (rpcUrls cd) 1 ns"
        "list_all wait_bounded evs"
      by auto
    from wr have c: "c = Normal" by (rule while_retry_NormalD)
    have "events addrs w (k, cd) =
          [LogAttemptChain k] @ evs @ (if \<not> success st2 then [LogFailed k maxRetries] else [])"
      using a wr c evs(1) by (simp add: events_def chain_body_def emit_def initial_def)
    then have "attempts (events addrs w (k, cd)) = rounds (rpcUrls cd) 1 ns"
      and "list_all wait_bounded (events addrs w (k, cd))"
      using evs(2,3) by (simp_all add: attempt_of_def wait_bounded_def)
    with ns show ?thesis by blast
  qed
qed

subsection \<open>A zero count ends the fetch of a chain\<close>

lemma try_body_no_zero:
  assumes "snd (race (getTotalContracts rpc) 10000 ''getTotalContracts timeout'') \<noteq> Inr 0"
  shows "\<exists>evs. trace (fst (try_body k a rpc rc url st)) = trace st @ evs \<and> LogNoContracts k \<notin> set evs"
proof -
  obtain t1 r1 where c: "race (getTotalContracts rpc) 10000 ''getTotalContracts timeout'' = (t1, r1)"
    by (cases "race (getTotalContracts rpc) 10000 ''getTotalContracts timeout''")
  show ?thesis
  proof (cases r1)
    case (Inl e)
    with c have "trace (fst (try_body k a rpc rc url st)) =
                 trace st @ [LogAttemptRpc url (rc + 1) maxRetries, Call_getTotalContracts url a t1]"
      by (simp add: try_body_def emit_def)
    then show ?thesis by fastforce
  next
    case (Inr n)
    with assms c have n: "n \<noteq> 0" by simp
    obtain t2 r2 where b: "race (getAllAudits rpc 0 n) 20000 ''getAllAudits timeout'' = (t2, r2)"
      by (cases "race (getAllAudits rpc 0 n) 20000 ''getAllAudits timeout''")
    let ?e4 = "[LogAttemptRpc url (rc + 1) maxRetries,
                Call_getTotalContracts url a t1, LogTotal k n, Call_getAllAudits url a 0 n t2]"
    let ?st4 = "st\<lparr>trace := trace st @ ?e4\<rparr>"
    have simple: ?thesis if "try_body k a rpc rc url st = (?st4, x)" for x
    proof -
      from that have "trace (fst (try_body k a rpc rc url st)) = trace st @ ?e4" by simp
      moreover have "LogNoContracts k \<notin> set ?e4" by simp
      ultimately show ?thesis by blast
    qed
    show ?thesis
    proof (cases r2)
      case (Inl e)
      with c b Inr n have "try_body k a rpc rc url st = (?st4, Throw e)"
        by (simp add: try_body_def emit_def)
      then show ?thesis by (rule simple)
    next
      case res: (Inr res)
      show ?thesis
      proof (cases res)
        case Null
        with c b Inr n res
        have "try_body k a rpc rc url st = (?st4, Throw (Error ''Invalid response format''))"
          by (simp add: try_body_def emit_def)
        then show ?thesis by (rule simple)
      next
        case (Obj r)
        show ?thesis
        proof (cases "contractHashes r")
          case None
          with c b Inr n res Obj
          have "try_body k a rpc rc url st = (?st4, Throw (Error ''Invalid response format''))"
            by (simp add: try_body_def emit_def)
          then show ?thesis by (rule simple)
        next
          case (Some hs)
          obtain st5 c5 where fb: "for_batches k r hs 0 ?st4 = (st5, c5)"
            by (cases "for_batches k r hs 0 ?st4")
          from for_batches_traceD[OF fb] obtain m where
            m: "trace st5 = trace ?st4 @ replicate m (Sleep 10)" by blast
          let ?x = "if is_Throw c5 then [] else [LogProcessed (length hs) k]"
          from c b Inr n res Obj Some fb
          have "trace (fst (try_body k a rpc rc url st)) = trace st5 @ ?x"
            by (simp add: try_body_def emit_def)
          with m have "trace (fst (try_body k a rpc rc url st)) =
                       trace st @ (?e4 @ replicate m (Sleep 10) @ ?x)" by simp
          moreover have "LogNoContracts k \<notin> set (?e4 @ replicate m (Sleep 10) @ ?x)"
            by auto
          ultimately show ?thesis by blast
        qed
      qed
    qed
  qed
qed

lemma try_catch_no_zero:
  assumes "snd (race (getTotalContracts rpc) 10000 ''getTotalContracts timeout'') \<noteq> Inr 0"
  shows "\<exists>evs. trace (fst (try_catch k a rpc rc url st)) = trace st @ evs \<and> LogNoContracts k \<notin> set evs"
proof -
  from try_body_no_zero[OF assms, of k a rc url st] obtain evs where
    e: "trace (fst (try_body k a rpc rc url st)) = trace st @ evs" "LogNoContracts k \<notin> set evs"
    by blast
  obtain st1 c where tb: "try_body k a rpc rc url st = (st1, c)"
    by (cases "try_body k a rpc rc url st")
  have "\<exists>x. trace (fst (try_catch k a rpc rc url st)) = trace st1 @ x \<and> LogNoContracts k \<notin> set x"
  proof (cases c)
    case (Throw err)
    with tb show ?thesis
      by (cases "isRpcError err") (simp_all add: try_catch_def emit_def)
  qed (use tb in \<open>simp_all add: try_catch_def\<close>)
  then obtain x where x: "trace (fst (try_catch k a rpc rc url st)) = trace st1 @ x"
    "LogNoContracts k \<notin> set x" by blast
  from tb e(1) x(1) have "trace (fst (try_catch k a rpc rc url st)) = trace st @ (evs @ x)" by simp
  moreover from e(2) x(2) have "LogNoContracts k \<notin> set (evs @ x)" by simp
  ultimately show ?thesis by blast
qed

lemma for_batches_successD:
  "for_batches k r hs i st = (st', c) \<Longrightarrow> success st' = success st"
  using for_batches_success[of k r hs i st] by simp

lemma try_catch_not_Break_success:
  assumes "snd (try_catch k a rpc rc url st) \<noteq> Break"
  shows "success (fst (try_catch k a rpc rc url st)) = success st"
proof -
  obtain st1 c where tb: "try_body k a rpc rc url st = (st1, c)"
    by (cases "try_body k a rpc rc url st")
  from assms tb have "c \<noteq> Break"
    by (auto simp add: try_catch_def split: completion.splits if_splits)
  with try_body_Throw_or_Break[of k a rpc rc url st] tb have th: "is_Throw c" by simp
  have "success st1 = success st"
    using tb th
    by (auto simp add: try_body_def Let_def emit_def for_batches_success
             split: prod.splits sum.splits js_result.splits option.splits if_splits
             dest: for_batches_successD)
  with tb th show ?thesis
    by (cases c) (simp_all add: try_catch_def emit_def)
qed

lemma zero_inv_emit:
  "\<not> success st \<Longrightarrow> zero_inv k A st \<Longrightarrow> e \<noteq> LogNoContracts k \<Longrightarrow> zero_inv k A (emit e st)"
  by (auto simp add: zero_inv_def emit_def)

lemma try_catch_zero_inv:
  assumes ns: "\<not> success st" and inv: "zero_inv k A st"
    and tc: "try_catch k a rpc rc url st = (st1, c)"
  shows "zero_inv k A st1 \<and> (c \<noteq> Break \<longrightarrow> \<not> success st1)"
proof -
  from ns inv have tr: "LogNoContracts k \<notin> set (trace st)" and au: "allAudits st = A"
    by (auto simp add: zero_inv_def)
  show ?thesis
  proof (cases "snd (race (getTotalContracts rpc) 10000 ''getTotalContracts timeout'') = Inr 0")
    case True
    then obtain t where r: "race (getTotalContracts rpc) 10000 ''getTotalContracts timeout'' = (t, Inr 0)"
      by (cases "race (getTotalContracts rpc) 10000 ''getTotalContracts timeout''") simp
    from try_catch_Break[OF try_body_count_zero[OF r, of k a rc url st]] tc
    have st1: "st1 = st\<lparr>success := True,
                 trace := trace st @ [LogAttemptRpc url (rc + 1) maxRetries, Call_getTotalContracts url a t,
                                      LogTotal k 0, LogNoContracts k]\<rparr>"
      and c: "c = Break" by simp_all
    have "zero_tail k (trace st1)"
      unfolding zero_tail_def st1 by auto
    with au c show ?thesis by (simp add: zero_inv_def st1)
  next
    case False
    from try_catch_no_zero[OF False, of k a rc url st] tc obtain evs where
      "trace st1 = trace st @ evs" "LogNoContracts k \<notin> set evs" by auto
    with tr have n1: "LogNoContracts k \<notin> set (trace st1)" by simp
    show ?thesis
    proof (cases "c = Break")
      case True
      with tc have "success st1" by (auto dest: try_catch_Break_success)
      with n1 True show ?thesis by (simp add: zero_inv_def)
    next
      case nb: False
      from nb tc try_catch_not_Break_success[of k a rpc rc url st] ns
      have s1: "\<not> success st1" by simp
      from nb tc try_catch_not_Break_unchanged[of k a rpc rc url st] au
      have "allAudits st1 = A" by simp
      with n1 s1 show ?thesis by (simp add: zero_inv_def)
    qed
  qed
qed

lemma for_rpcUrls_zero_inv:
  "\<not> success st \<Longrightarrow> zero_inv k A st \<Longrightarrow> zero_inv k A (fst (for_rpcUrls k a w rc n urls st))"
proof (induction urls arbitrary: n st)
  case Nil
  then show ?case by simp
next
  case (Cons url rest)
  obtain st1 c where tc: "try_catch k a (w k rc n) rc url st = (st1, c)"
    by (cases "try_catch k a (w k rc n) rc url st")
  from try_catch_zero_inv[OF Cons.prems tc]
  have i1: "zero_inv k A st1" and s1: "c \<noteq> Break \<Longrightarrow> \<not> success st1" by simp_all
  from tc have nt: "\<not> is_Throw c" by (rule try_catch_no_throwD)
  show ?case
  proof (cases "c = Break")
    case True
    with tc i1 show ?thesis by simp
  next
    case False
    from Cons.IH[OF s1[OF False] i1, of "n + 1"] tc False nt show ?thesis by simp
  qed
qed

lemma while_retry_zero_inv:
  "zero_inv k A st \<Longrightarrow> zero_inv k A (fst (while_retry k a w urls rc st))"
proof (induction k a w urls rc st rule: while_retry.induct)
  case (1 k a w urls rc st)
  show ?case
  proof (cases "\<not> success st \<and> rc < maxRetries")
    case False
    with "1.prems" show ?thesis by (auto simp add: while_retry.simps[of k a w urls rc])
  next
    case True
    obtain st1 c where fr: "for_rpcUrls k a w rc 0 urls st = (st1, c)"
      by (cases "for_rpcUrls k a w rc 0 urls st")
    with for_rpcUrls_Normal[of k a w rc 0 urls st] have c: "\<not> is_Throw c" by simp
    from for_rpcUrls_zero_inv[of st k A a w rc 0 urls] True "1.prems" fr
    have i1: "zero_inv k A st1" by simp
    show ?thesis
    proof (cases "success st1")
      case s1: True
      with True fr c i1 show ?thesis
        by (simp add: while_retry.simps[of k a w urls rc] while_retry_done)
    next
      case s1: False
      show ?thesis
      proof (cases "rc + 1 < maxRetries")
        case lt: True
        let ?d = "baseDelay * 2 ^ (rc + 1)"
        have "zero_inv k A (emit (Sleep ?d) (emit (LogRetry k ?d) st1))"
          using s1 i1 by (intro zero_inv_emit) (simp_all add: emit_def)
        from "1.IH"(1)[OF True refl fr[symmetric] c s1 lt this] True fr c s1 lt show ?thesis
          by (simp add: while_retry.simps[of k a w urls rc])
      next
        case ge: False
        from "1.IH"(2)[OF True refl fr[symmetric] c s1 ge i1] True fr c s1 ge show ?thesis
          by (simp add: while_retry.simps[of k a w urls rc])
      qed
    qed
  qed
qed

lemma events_zero:
  assumes "LogNoContracts k \<in> set (events addrs w (k, cd))"
  shows "contribution addrs w (k, cd) = [] \<and> zero_tail k (events addrs w (k, cd))"
proof (cases "addrs k = None \<or> addrs k = Some []")
  case True
  from chain_body_no_address[of addrs k, OF True, of w cd initial] assms show ?thesis
    by (simp add: events_def initial_def)
next
  case False
  then obtain a where a: "addrs k = Some a" "a \<noteq> []" by auto
  let ?s0 = "(emit (LogAttemptChain k) initial)\<lparr>success := False\<rparr>"
  obtain st2 c where wr: "while_retry k a w (rpcUrls cd) 0 ?s0 = (st2, c)"
    by (cases "while_retry k a w (rpcUrls cd) 0 ?s0")
  from wr have c: "c = Normal" by (rule while_retry_NormalD)
  have "zero_inv k [] ?s0" by (simp add: zero_inv_def emit_def initial_def)
  from while_retry_zero_inv[OF this, of a w "rpcUrls cd" 0] wr
  have inv: "zero_inv k [] st2" by simp
  show ?thesis
  proof (cases "success st2")
    case True
    with a wr c have "events addrs w (k, cd) = trace st2" "contribution addrs w (k, cd) = allAudits st2"
      by (simp_all add: events_def contribution_def chain_body_def)
    with assms inv show ?thesis by (simp add: zero_inv_def)
  next
    case False
    with a wr c have "events addrs w (k, cd) = trace st2 @ [LogFailed k maxRetries]"
      by (simp add: events_def chain_body_def emit_def)
    with assms False inv show ?thesis by (simp add: zero_inv_def)
  qed
qed

subsection \<open>The profile page runs as the reports page does\<close>

declare for_batches_user.simps [simp del] while_retry_user.simps [simp del]

lemma sim_emit: "sim u st ust \<Longrightarrow> sim u (emit e st) (emit_user e ust)"
  by (simp add: sim_def counted_def emit_def emit_user_def)

lemma sim_success: "sim u st ust \<Longrightarrow> sim u (st\<lparr>success := b\<rparr>) (ust\<lparr>success_u := b\<rparr>)"
  by (simp add: sim_def counted_def)

lemma counted_push:
  "counted ust \<Longrightarrow> chain_u a = k \<Longrightarrow> counted (push_user k a ust)"
  by (auto simp add: counted_def push_user_def count_of_def)

lemma forEach_sim:
  "sim u st ust \<Longrightarrow>
   sim u (fst (forEach k r i idx batch st)) (fst (forEach_user u k r i idx batch ust)) \<and>
   snd (forEach_user u k r i idx batch ust) = snd (forEach k r i idx batch st)"
proof (induction batch arbitrary: idx st ust)
  case Nil
  then show ?case by simp
next
  case (Cons hash batch)
  show ?case
  proof (cases "guard r (i + idx)")
    case (Inl e)
    with Cons.prems show ?thesis by simp
  next
    case (Inr o1)
    show ?thesis
    proof (cases o1)
      case None
      with Inr Cons.IH[OF Cons.prems] show ?thesis by simp
    next
      case (Some q)
      obtain s m a t where q: "q = (s, m, a, t)" by (cases q) auto
      show ?thesis
      proof (cases "toLowerCase a = toLowerCase u")
        case True
        have "sim u (push \<lparr>contractHash = hash, stars = s, summary = m, auditor = a,
                   timestamp = t, chain = k\<rparr> st)
                 (push_user k \<lparr>contractHash_u = hash, stars_u = s, summary_u = m, timestamp_u = t,
                     chain_u = k\<rparr> ust)"
          using Cons.prems True
            counted_push[of ust "\<lparr>contractHash_u = hash, stars_u = s, summary_u = m, timestamp_u = t,
                     chain_u = k\<rparr>" k]
          by (simp add: sim_def push_def retained_def userAudit_of_def)
             (simp add: push_user_def)
        from Cons.IH[OF this] Inr Some q True show ?thesis by simp
      next
        case False
        have "sim u (push \<lparr>contractHash = hash, stars = s, summary = m, auditor = a,
                   timestamp = t, chain = k\<rparr> st) ust"
          using Cons.prems False
          by (simp add: sim_def push_def retained_def)
        from Cons.IH[OF this] Inr Some q False show ?thesis by simp
      qed
    qed
  qed
qed

lemma for_batches_sim:
  "sim u st ust \<Longrightarrow>
   sim u (fst (for_batches k r hashes i st)) (fst (for_batches_user u k r hashes i ust)) \<and>
   snd (for_batches_user u k r hashes i ust) = snd (for_batches k r hashes i st)"
proof (induction k r hashes i st arbitrary: ust rule: for_batches.induct)
  case (1 chainKey r hashes i st)
  show ?case
  proof (cases "i < length hashes")
    case False
    with 1(2) show ?thesis by (simp add: for_batches.simps for_batches_user.simps)
  next
    case True
    obtain st1 c where fe: "forEach chainKey r i 0 (slice hashes i (i + batchSize)) st = (st1, c)"
      by (cases "forEach chainKey r i 0 (slice hashes i (i + batchSize)) st")
    obtain ust1 c' where feu: "forEach_user u chainKey r i 0 (slice hashes i (i + batchSize)) ust = (ust1, c')"
      by (cases "forEach_user u chainKey r i 0 (slice hashes i (i + batchSize)) ust")
    from forEach_sim[OF 1(2), of chainKey r i 0 "slice hashes i (i + batchSize)"] fe feu
    have s1: "sim u st1 ust1" and c: "c' = c" by simp_all
    show ?thesis
    proof (cases "is_Throw c")
      case True
      have "for_batches chainKey r hashes i st = (st1, c)"
        using \<open>i < length hashes\<close> fe True by (subst for_batches.simps) simp
      moreover have "for_batches_user u chainKey r hashes i ust = (ust1, c)"
        using \<open>i < length hashes\<close> feu c True by (subst for_batches_user.simps) simp
      ultimately show ?thesis using s1 by simp
    next
      case False
      from 1(1)[OF True refl fe[symmetric] False sim_emit[OF s1]]
      have "sim u (fst (for_batches chainKey r hashes (i + batchSize) (emit (Sleep 10) st1)))
                  (fst (for_batches_user u chainKey r hashes (i + batchSize) (emit_user (Sleep 10) ust1))) \<and>
            snd (for_batches_user u chainKey r hashes (i + batchSize) (emit_user (Sleep 10) ust1)) =
            snd (for_batches chainKey r hashes (i + batchSize) (emit (Sleep 10) st1))" .
      moreover have "for_batches chainKey r hashes i st =
          for_batches chainKey r hashes (i + batchSize) (emit (Sleep 10) st1)"
        using \<open>i < length hashes\<close> fe False by (subst for_batches.simps) simp
      moreover have "for_batches_user u chainKey r hashes i ust =
          for_batches_user u chainKey r hashes (i + batchSize) (emit_user (Sleep 10) ust1)"
        using \<open>i < length hashes\<close> feu c False by (subst for_batches_user.simps) simp
      ultimately show ?thesis by simp
    qed
  qed
qed


lemma try_body_sim:
  assumes "sim u st ust"
  shows "sim u (fst (try_body k a rpc rc url st)) (fst (try_body_user u k a rpc rc url ust)) \<and>
         snd (try_body_user u k a rpc rc url ust) = snd (try_body k a rpc rc url st)"
proof -
  obtain wt tc where r1: "race (getTotalContracts rpc) 10000 ''getTotalContracts timeout'' = (wt, tc)"
    by (cases "race (getTotalContracts rpc) 10000 ''getTotalContracts timeout''")
  let ?st2 = "emit (Call_getTotalContracts url a wt) (emit (LogAttemptRpc url (rc + 1) maxRetries) st)"
  let ?ust2 = "emit_user (Call_getTotalContracts url a wt) (emit_user (LogAttemptRpc url (rc + 1) maxRetries) ust)"
  have s2: "sim u ?st2 ?ust2"
    by (intro sim_emit assms)
  show ?thesis
  proof (cases tc)
    case (Inl e)
    with r1 s2 show ?thesis
      by (simp add: try_body_def try_body_user_def)
  next
    case (Inr n)
    let ?st3 = "emit (LogTotal k n) ?st2"
    let ?ust3 = "emit_user (LogTotal k n) ?ust2"
    have s3: "sim u ?st3 ?ust3"
      by (intro sim_emit s2)
    show ?thesis
    proof (cases "n = 0")
      case True
      have "sim u ((emit (LogNoContracts k) ?st3)\<lparr>success := True\<rparr>)
                  ((emit_user (LogNoContracts k) ?ust3)\<lparr>success_u := True\<rparr>)"
        by (intro sim_success sim_emit s3)
      with r1 Inr True show ?thesis
        by (simp add: try_body_def try_body_user_def)
    next
      case False
      obtain wt2 res where r2: "race (getAllAudits rpc 0 n) 20000 ''getAllAudits timeout'' = (wt2, res)"
        by (cases "race (getAllAudits rpc 0 n) 20000 ''getAllAudits timeout''")
      let ?st4 = "emit (Call_getAllAudits url a 0 n wt2) ?st3"
      let ?ust4 = "emit_user (Call_getAllAudits url a 0 n wt2) ?ust3"
      have s4: "sim u ?st4 ?ust4"
        by (intro sim_emit s3)
      show ?thesis
      proof (cases res)
        case (Inl e)
        with r1 \<open>tc = Inr n\<close> False r2 s4 show ?thesis
          by (simp add: try_body_def try_body_user_def)
      next
        case (Inr jr)
        show ?thesis
        proof (cases jr)
          case Null
          with Inr r1 \<open>tc = Inr n\<close> False r2 s4 show ?thesis
            by (simp add: try_body_def try_body_user_def)
        next
          case (Obj r)
          show ?thesis
          proof (cases "contractHashes r")
            case None
            with Obj Inr r1 \<open>tc = Inr n\<close> False r2 s4 show ?thesis
              by (simp add: try_body_def try_body_user_def)
          next
            case (Some hashes)
            obtain st5 c where fb: "for_batches k r hashes 0 ?st4 = (st5, c)"
              by (cases "for_batches k r hashes 0 ?st4")
            obtain ust5 c' where fbu: "for_batches_user u k r hashes 0 ?ust4 = (ust5, c')"
              by (cases "for_batches_user u k r hashes 0 ?ust4")
            from for_batches_sim[OF s4, of k r hashes 0] fb fbu
            have s5: "sim u st5 ust5" and c: "c' = c" by simp_all
            have s6: "sim u ((emit (LogProcessed (length hashes) k) st5)\<lparr>success := True\<rparr>)
                           ((emit_user (LogProcessed (length hashes) k) ust5)\<lparr>success_u := True\<rparr>)"
              by (intro sim_success sim_emit s5)
            from Some Obj Inr r1 \<open>tc = Inr n\<close> False r2 fb fbu c s5 s6 show ?thesis
              by (simp add: try_body_def try_body_user_def)
          qed
        qed
      qed
    qed
  qed
qed

lemma try_catch_sim:
  assumes "sim u st ust"
  shows "sim u (fst (try_catch k a rpc rc url st)) (fst (try_catch_user u k a rpc rc url ust)) \<and>
         snd (try_catch_user u k a rpc rc url ust) = snd (try_catch k a rpc rc url st)"
proof -
  obtain st1 c where tb: "try_body k a rpc rc url st = (st1, c)"
    by (cases "try_body k a rpc rc url st")
  obtain ust1 c' where tbu: "try_body_user u k a rpc rc url ust = (ust1, c')"
    by (cases "try_body_user u k a rpc rc url ust")
  from try_body_sim[OF assms, of k a rpc rc url] tb tbu
  have s1: "sim u st1 ust1" and c: "c' = c" by simp_all
  show ?thesis
  proof (cases c)
    case (Throw e)
    with tb tbu c sim_emit[OF s1] show ?thesis
      by (simp add: try_catch_def try_catch_user_def)
  qed (use tb tbu c s1 in \<open>simp_all add: try_catch_def try_catch_user_def\<close>)
qed

lemma for_rpcUrls_sim:
  "sim u st ust \<Longrightarrow>
   sim u (fst (for_rpcUrls k a w rc n urls st)) (fst (for_rpcUrls_user u k a w rc n urls ust)) \<and>
   snd (for_rpcUrls_user u k a w rc n urls ust) = snd (for_rpcUrls k a w rc n urls st)"
proof (induction urls arbitrary: n st ust)
  case Nil
  then show ?case by simp
next
  case (Cons url rest)
  obtain st1 c where tc: "try_catch k a (w k rc n) rc url st = (st1, c)"
    by (cases "try_catch k a (w k rc n) rc url st")
  obtain ust1 c' where tcu: "try_catch_user u k a (w k rc n) rc url ust = (ust1, c')"
    by (cases "try_catch_user u k a (w k rc n) rc url ust")
  from try_catch_sim[OF Cons.prems, of k a "w k rc n" rc url] tc tcu
  have s1: "sim u st1 ust1" and c: "c' = c" by simp_all
  from Cons.IH[OF s1, of "n + 1"] tc tcu c s1 show ?case by simp
qed

lemma while_retry_sim:
  "sim u st ust \<Longrightarrow>
   sim u (fst (while_retry k a w urls rc st)) (fst (while_retry_user u k a w urls rc ust)) \<and>
   snd (while_retry_user u k a w urls rc ust) = snd (while_retry k a w urls rc st)"
proof (induction k a w urls rc st arbitrary: ust rule: while_retry.induct)
  case (1 k a w urls rc st)
  have su: "success_u ust = success st" using 1(4) by (simp add: sim_def)
  show ?case
  proof (cases "\<not> success st \<and> rc < maxRetries")
    case False
    have "while_retry k a w urls rc st = (st, Normal)"
      using False by (subst while_retry.simps) auto
    moreover have "while_retry_user u k a w urls rc ust = (ust, Normal)"
      using False su by (subst while_retry_user.simps) auto
    ultimately show ?thesis using 1(4) by simp
  next
    case True
    obtain st1 c where fr: "for_rpcUrls k a w rc 0 urls st = (st1, c)"
      by (cases "for_rpcUrls k a w rc 0 urls st")
    obtain ust1 c' where fru: "for_rpcUrls_user u k a w rc 0 urls ust = (ust1, c')"
      by (cases "for_rpcUrls_user u k a w rc 0 urls ust")
    from for_rpcUrls_sim[OF 1(4), of k a w rc 0 urls] fr fru
    have s1: "sim u st1 ust1" and c: "c' = c" by simp_all
    have su1: "success_u ust1 = success st1" using s1 by (simp add: sim_def)
    consider (thr) "is_Throw c"
      | (sleep) "\<not> is_Throw c" "\<not> success st1" "rc + 1 < maxRetries"
      | (last) "\<not> is_Throw c" "\<not> success st1" "\<not> rc + 1 < maxRetries"
      | (ok) "\<not> is_Throw c" "success st1"
      by blast
    then show ?thesis
    proof cases
      case thr
      have "while_retry k a w urls rc st = (st1, c)"
        using True fr thr by (subst while_retry.simps) simp
      moreover have "while_retry_user u k a w urls rc ust = (ust1, c)"
        using True su fru c thr by (subst while_retry_user.simps) simp
      ultimately show ?thesis using s1 by simp
    next
      case sleep
      let ?d = "baseDelay * 2 ^ (rc + 1)"
      have s2: "sim u (emit (Sleep ?d) (emit (LogRetry k ?d) st1))
                      (emit_user (Sleep ?d) (emit_user (LogRetry k ?d) ust1))"
        by (intro sim_emit s1)
      have "while_retry k a w urls rc st =
            while_retry k a w urls (rc + 1) (emit (Sleep ?d) (emit (LogRetry k ?d) st1))"
        using True fr sleep by (subst while_retry.simps) simp
      moreover have "while_retry_user u k a w urls rc ust =
            while_retry_user u k a w urls (rc + 1) (emit_user (Sleep ?d) (emit_user (LogRetry k ?d) ust1))"
        using True su su1 fru c sleep by (subst while_retry_user.simps) simp
      moreover note 1(1)[OF True refl fr[symmetric] sleep(1) sleep(2) sleep(3) s2]
      ultimately show ?thesis by simp
    next
      case last
      have "while_retry k a w urls rc st = while_retry k a w urls (rc + 1) st1"
        using True fr last by (subst while_retry.simps) simp
      moreover have "while_retry_user u k a w urls rc ust = while_retry_user u k a w urls (rc + 1) ust1"
        using True su su1 fru c last by (subst while_retry_user.simps) simp
      moreover note 1(2)[OF True refl fr[symmetric] last(1) last(2) last(3) s1]
      ultimately show ?thesis by simp
    next
      case ok
      have "while_retry k a w urls rc st = while_retry k a w urls rc st1"
        using True fr ok by (subst while_retry.simps) simp
      moreover have "while_retry_user u k a w urls rc ust = while_retry_user u k a w urls rc ust1"
        using True su su1 fru c ok by (subst while_retry_user.simps) simp
      moreover have "sim u (fst (while_retry k a w urls rc st1)) (fst (while_retry_user u k a w urls rc ust1)) \<and>
            snd (while_retry_user u k a w urls rc ust1) = snd (while_retry k a w urls rc st1)"
        using 1(3)[OF True refl fr[symmetric] ok(1) _ s1] ok(2) by simp
      ultimately show ?thesis by simp
    qed
  qed
qed

lemma chain_body_sim:
  assumes "sim u st ust"
  shows "sim u (fst (chain_body addrs w entry st)) (fst (chain_body_user u addrs w entry ust)) \<and>
         snd (chain_body_user u addrs w entry ust) = snd (chain_body addrs w entry st)"
proof -
  obtain k d where e: "entry = (k, d)" by (cases entry)
  have s1: "sim u (emit (LogAttemptChain k) st) (emit_user (LogAttemptChain k) ust)"
    by (intro sim_emit assms)
  have sn: "sim u (emit (LogNoAddress k) (emit (LogAttemptChain k) st))
                  (emit_user (LogNoAddress k) (emit_user (LogAttemptChain k) ust))"
    by (intro sim_emit assms)
  show ?thesis
  proof (cases "addrs k")
    case None
    with e sn show ?thesis by (simp add: chain_body_def chain_body_user_def)
  next
    case (Some a)
    show ?thesis
    proof (cases "a = []")
      case True
      with Some e sn show ?thesis by (simp add: chain_body_def chain_body_user_def)
    next
      case False
      let ?st1 = "(emit (LogAttemptChain k) st)\<lparr>success := False\<rparr>"
      let ?ust1 = "(emit_user (LogAttemptChain k) ust)\<lparr>success_u := False\<rparr>"
      have s2: "sim u ?st1 ?ust1" by (intro sim_success s1)
      obtain st2 c where wr: "while_retry k a w (rpcUrls d) 0 ?st1 = (st2, c)"
        by (cases "while_retry k a w (rpcUrls d) 0 ?st1")
      obtain ust2 c' where wru: "while_retry_user u k a w (rpcUrls d) 0 ?ust1 = (ust2, c')"
        by (cases "while_retry_user u k a w (rpcUrls d) 0 ?ust1")
      from while_retry_sim[OF s2, of k a w "rpcUrls d" 0] wr wru
      have s3: "sim u st2 ust2" and c: "c' = c" by simp_all
      have su: "success_u ust2 = success st2" using s3 by (simp add: sim_def)
      from Some False e wr wru c s3 su sim_emit[OF s3, of "LogFailed k maxRetries"]
      show ?thesis by (simp add: chain_body_def chain_body_user_def)
    qed
  qed
qed

lemma for_chains_sim:
  "sim u st ust \<Longrightarrow>
   sim u (fst (for_chains addrs w config st)) (fst (for_chains_user u addrs w config ust)) \<and>
   snd (for_chains_user u addrs w config ust) = snd (for_chains addrs w config st)"
proof (induction config arbitrary: st ust)
  case Nil
  then show ?case by simp
next
  case (Cons entry rest)
  obtain st1 c where cb: "chain_body addrs w entry st = (st1, c)"
    by (cases "chain_body addrs w entry st")
  obtain ust1 c' where cbu: "chain_body_user u addrs w entry ust = (ust1, c')"
    by (cases "chain_body_user u addrs w entry ust")
  from chain_body_sim[OF Cons.prems, of addrs w entry] cb cbu
  have s1: "sim u st1 ust1" and c: "c' = c" by simp_all
  from Cons.IH[OF s1] cb cbu c s1 show ?case by simp
qed

subsection \<open>Sorting and the identity\<close>

lemma insort_key_map:
  "insort_key f (g x) (map g xs) = map g (insort_key (\<lambda>y. f (g y)) x xs)"
  by (induction xs) simp_all

lemma sort_key_map:
  "sort_key f (map g xs) = map g (sort_key (\<lambda>y. f (g y)) xs)"
  by (induction xs) (simp_all add: insort_key_map)

lemma sort_desc_retained:
  "sort_desc_user (retained u xs) = retained u (sort_desc xs)"
  by (simp add: sort_desc_user_def sort_desc_def retained_def sort_key_map userAudit_of_def filter_sort)

subsection \<open>What the profile page delivers\<close>

lemma sim_initial: "sim u initial initial_user"
  by (simp add: sim_def counted_def count_of_def initial_def initial_user_def retained_def)

lemma for_chains_user_Normal: "snd (for_chains_user u addrs w config initial_user) = Normal"
  using for_chains_sim[OF sim_initial, of u addrs w config] by (simp add: for_chains_Normal)

lemma for_chains_user_retained:
  "allAudits_u (fst (for_chains_user u addrs w config initial_user)) =
   retained u (allAudits (fst (for_chains addrs w config initial)))"
  using for_chains_sim[OF sim_initial, of u addrs w config] by (simp add: sim_def)

lemma for_chains_user_counted:
  "counted (fst (for_chains_user u addrs w config initial_user))"
  using for_chains_sim[OF sim_initial, of u addrs w config] by (simp add: sim_def)

lemma fetchUserStats_eq:
  "fetchUserStats u config addrs w =
     (let st = fst (for_chains_user u addrs w config initial_user);
          sorted = sort_desc_user (allAudits_u st)
      in ((emit_user (LogTotalAudits (length (allAudits_u st))) st)\<lparr>allAudits_u := sorted\<rparr>,
          Some \<lparr>totalAudits = length (allAudits_u st),
                averageStars = (if length (allAudits_u st) > 0
                                then real (totalStars st) / real (length (allAudits_u st)) else 0),
                chainBreakdown = chainCounts st,
                recentAudits = take 5 sorted\<rparr>,
          Normal))"
  using for_chains_user_Normal[of u addrs w config]
  by (cases "for_chains_user u addrs w config initial_user")
     (simp add: fetchUserStats_def Let_def emit_user_def)

lemma fetchAll_eq:
  "allAudits (fst (fetchAllChainAudits config addrs w)) =
   sort_desc (allAudits (fst (for_chains addrs w config initial)))"
  using for_chains_Normal[of addrs w config initial]
  by (cases "for_chains addrs w config initial") (simp add: fetchAllChainAudits_def)

lemma fetchUserStats_retained:
  "allAudits_u (fst (fetchUserStats u config addrs w)) =
   retained u (allAudits (fst (fetchAllChainAudits config addrs w)))"
  by (simp add: fetchUserStats_eq Let_def for_chains_user_retained sort_desc_retained fetchAll_eq)

lemma fetchUserStats_stats:
  "map_option recentAudits (fst (snd (fetchUserStats u config addrs w))) =
     Some (take 5 (retained u (allAudits (fst (fetchAllChainAudits config addrs w)))))"
  "map_option totalAudits (fst (snd (fetchUserStats u config addrs w))) =
     Some (length (retained u (allAudits (fst (fetchAllChainAudits config addrs w)))))"
proof -
  have l: "length (sort_desc_user xs) = length xs" for xs
    by (simp add: sort_desc_user_def)
  show "map_option recentAudits (fst (snd (fetchUserStats u config addrs w))) =
     Some (take 5 (retained u (allAudits (fst (fetchAllChainAudits config addrs w)))))"
    by (simp add: fetchUserStats_eq Let_def for_chains_user_retained sort_desc_retained fetchAll_eq)
  show "map_option totalAudits (fst (snd (fetchUserStats u config addrs w))) =
     Some (length (retained u (allAudits (fst (fetchAllChainAudits config addrs w)))))"
    using l[of "retained u (allAudits (fst (for_chains addrs w config initial)))"]
    by (simp add: fetchUserStats_eq Let_def for_chains_user_retained sort_desc_retained fetchAll_eq)
qed

lemma forEach_user_retained:
  "allAudits_u (fst (forEach_user u k r i idx batch initial_user)) =
   retained u (allAudits (fst (forEach k r i idx batch initial)))"
  using forEach_sim[OF sim_initial, of u k r i idx batch] by (simp add: sim_def)


lemma fetchUserStats_counts:
  "map_option chainBreakdown (fst (snd (fetchUserStats u config addrs w))) =
     Some (\<lambda>k. count_of k (allAudits_u (fst (for_chains_user u addrs w config initial_user))))"
  "map_option averageStars (fst (snd (fetchUserStats u config addrs w))) =
     Some (let xs = allAudits_u (fst (for_chains_user u addrs w config initial_user))
           in if length xs > 0 then real (sum_list (map stars_u xs)) / real (length xs) else 0)"
  using for_chains_user_counted[of u addrs w config]
  by (auto simp add: fetchUserStats_eq Let_def counted_def)

subsection \<open>The example answers\<close>

lemma lower_identities:
  "toLowerCase ''0xA1'' = ''0xa1''" "toLowerCase ''0xB2'' = ''0xb2''"
  "toLowerCase ''0xa1'' = ''0xa1''" "toLowerCase ''0xb2'' = ''0xb2''"
  by code_simp+

lemma forEach_three:
  "allAudits (fst (forEach ''goodnet'' response_three 0 0 [''0xaa'', ''0xbb'', ''0xcc''] initial)) =
     [\<lparr>contractHash = ''0xaa'', stars = 5, summary = ''ok'', auditor = ''0xA1'', timestamp = 100,
       chain = ''goodnet''\<rparr>,
      \<lparr>contractHash = ''0xbb'', stars = 3, summary = ''bad'', auditor = ''0xB2'', timestamp = 200,
       chain = ''goodnet''\<rparr>,
      \<lparr>contractHash = ''0xcc'', stars = 4, summary = ''fine'', auditor = ''0xa1'', timestamp = 300,
       chain = ''goodnet''\<rparr>]"
  by (simp add: guard_def response_three_def push_def initial_def)

section \<open>The claims\<close>

text \<open>
  C1 as stated fails: an answer with two hashes and one rating is not rejected. The
  endpoint succeeds and the record of index 0 is added.
\<close>

theorem C1_counterexample:
  "contractHashes response_short = Some [''0xaa'', ''0xbb''] \<and> starsArr response_short = Some [5] \<and>
   try_catch ''goodnet'' ''0xREG'' rpc_short 0 ''v1'' initial =
     (initial\<lparr>allAudits := [record_aa], success := True,
              trace := [LogAttemptRpc ''v1'' 1 maxRetries, Call_getTotalContracts ''v1'' ''0xREG'' 120,
                        LogTotal ''goodnet'' 2, Call_getAllAudits ''v1'' ''0xREG'' 0 2 300,
                        Sleep 10, LogProcessed 2 ''goodnet'']\<rparr>, Break)"
proof -
  have a: "all_arrays response_short [''0xaa'', ''0xbb''] [5] [''ok'', ''bad''] [''0xA1'', ''0xB2''] [100, 200]"
    by (simp add: all_arrays_def response_short_def)
  have r: "records_of ''goodnet'' [''0xaa'', ''0xbb''] [5] [''ok'', ''bad''] [''0xA1'', ''0xB2''] [100, 200]
           = [record_aa]"
    by (simp add: records_of_def common_length_def mkRecord_def record_aa_def)
  have b: "batches [''0xaa'', ''0xbb''] 0 = [[''0xaa'', ''0xbb'']]"
    by (simp add: batches.simps[of _ 0] batches.simps[of _ 50] batchSize_def slice_def)
  have c: "race (getTotalContracts rpc_short) 10000 ''getTotalContracts timeout'' = (120, Inr 2)"
    "race (getAllAudits rpc_short 0 2) 20000 ''getAllAudits timeout'' = (300, Inr (Obj response_short))"
    by (simp_all add: race_def rpc_short_def)
  have "try_body ''goodnet'' ''0xREG'' rpc_short 0 ''v1'' initial =
     (initial\<lparr>allAudits := [record_aa], success := True,
              trace := [LogAttemptRpc ''v1'' 1 maxRetries, Call_getTotalContracts ''v1'' ''0xREG'' 120,
                        LogTotal ''goodnet'' 2, Call_getAllAudits ''v1'' ''0xREG'' 0 2 300,
                        Sleep 10, LogProcessed 2 ''goodnet'']\<rparr>, Break)"
    using try_body_ok[OF c(1) _ c(2) a, of "''goodnet''" "''0xREG''" 0 "''v1''" initial]
    by (simp add: r b initial_def)
  then show ?thesis
    by (simp add: try_catch_def response_short_def)
qed

text \<open>
  C1, amended. When the bulk fetch fulfils in time: an answer that is null, or whose
  \<open>contractHashes\<close> is not an array, is rejected with the error
  \<open>Invalid response format\<close>, which is logged, and the next endpoint is tried; an answer
  whose five properties are arrays, of equal lengths or not, is accepted, and one record
  for every index that all five arrays have is added after the records already there.
  Whatever the endpoint does (no answer in time, a rejection, an answer that is
  rejected, an error while the records are read), an attempt that does not succeed,
  that is, does not end with \<open>break\<close>, leaves the records already accumulated unchanged.
\<close>

theorem C1_malformed_response_handling:
  "(getTotalContracts rpc = Fulfils t n \<and> t < 10000 \<and> n \<noteq> 0 \<and>
    getAllAudits rpc 0 n = Fulfils t' res \<and> t' < 20000 \<longrightarrow>
      (res = Null \<or> (\<exists>r. res = Obj r \<and> contractHashes r = None) \<longrightarrow>
         try_catch k a rpc rc url st =
           (st\<lparr>trace := trace st @
                  [LogAttemptRpc url (rc + 1) maxRetries, Call_getTotalContracts url a t,
                   LogTotal k n, Call_getAllAudits url a 0 n t',
                   LogError k (Error ''Invalid response format'')]\<rparr>, Normal)) \<and>
      (\<forall>r hs ss ms as ts. res = Obj r \<and> all_arrays r hs ss ms as ts \<longrightarrow>
         try_catch k a rpc rc url st =
           (st\<lparr>allAudits := allAudits st @ records_of k hs ss ms as ts,
               success := True,
               trace := trace st @
                  [LogAttemptRpc url (rc + 1) maxRetries, Call_getTotalContracts url a t,
                   LogTotal k n, Call_getAllAudits url a 0 n t'] @
                  replicate (length (batches hs 0)) (Sleep 10) @
                  [LogProcessed (length hs) k]\<rparr>, Break))) \<and>
   (snd (try_catch k a rpc rc url st) \<noteq> Break \<longrightarrow>
      allAudits (fst (try_catch k a rpc rc url st)) = allAudits st)"
proof (intro conjI impI allI)
  assume h: "getTotalContracts rpc = Fulfils t n \<and> t < 10000 \<and> n \<noteq> 0 \<and>
    getAllAudits rpc 0 n = Fulfils t' res \<and> t' < 20000"
  then have c: "race (getTotalContracts rpc) 10000 ''getTotalContracts timeout'' = (t, Inr n)"
    by (simp add: race_Fulfils)
  from h have b: "race (getAllAudits rpc 0 n) 20000 ''getAllAudits timeout'' = (t', Inr res)"
    by (simp add: race_Fulfils)
  from h have n: "n \<noteq> 0" by simp
  {
    assume "res = Null \<or> (\<exists>r. res = Obj r \<and> contractHashes r = None)"
    from try_body_invalid[OF c n b this, of k a rc url st] not_isRpcError_invalid
    show "try_catch k a rpc rc url st =
           (st\<lparr>trace := trace st @
                  [LogAttemptRpc url (rc + 1) maxRetries, Call_getTotalContracts url a t,
                   LogTotal k n, Call_getAllAudits url a 0 n t',
                   LogError k (Error ''Invalid response format'')]\<rparr>, Normal)"
      by (simp add: try_catch_def emit_def)
  }
  {
    fix r hs ss ms as ts
    assume "res = Obj r \<and> all_arrays r hs ss ms as ts"
    then have r: "res = Obj r" and aa: "all_arrays r hs ss ms as ts" by simp_all
    from try_body_ok[OF c n b[unfolded r] aa, of k a rc url st]
    show "try_catch k a rpc rc url st =
           (st\<lparr>allAudits := allAudits st @ records_of k hs ss ms as ts,
               success := True,
               trace := trace st @
                  [LogAttemptRpc url (rc + 1) maxRetries, Call_getTotalContracts url a t,
                   LogTotal k n, Call_getAllAudits url a 0 n t'] @
                  replicate (length (batches hs 0)) (Sleep 10) @
                  [LogProcessed (length hs) k]\<rparr>, Break)"
      by (simp add: try_catch_def)
  }
next
  assume "snd (try_catch k a rpc rc url st) \<noteq> Break"
  then show "allAudits (fst (try_catch k a rpc rc url st)) = allAudits st"
    by (rule try_catch_not_Break_unchanged)
qed

theorem C1_witness:
  "try_catch ''goodnet'' ''0xREG'' rpc_null 0 ''v1'' (initial\<lparr>allAudits := [record_bb]\<rparr>) =
     (initial\<lparr>allAudits := [record_bb],
              trace := [LogAttemptRpc ''v1'' 1 maxRetries, Call_getTotalContracts ''v1'' ''0xREG'' 120,
                        LogTotal ''goodnet'' 2, Call_getAllAudits ''v1'' ''0xREG'' 0 2 300,
                        LogError ''goodnet'' (Error ''Invalid response format'')]\<rparr>, Normal) \<and>
   snd (try_catch ''badnet'' ''0xBAD'' rpc_down 0 ''u1'' (initial\<lparr>allAudits := [record_bb]\<rparr>)) = Continue \<and>
   allAudits (fst (try_catch ''badnet'' ''0xBAD'' rpc_down 0 ''u1'' (initial\<lparr>allAudits := [record_bb]\<rparr>)))
     = [record_bb]"
proof -
  have h: "getTotalContracts rpc_null = Fulfils 120 2 \<and> (120::nat) < 10000 \<and> (2::nat) \<noteq> 0 \<and>
    getAllAudits rpc_null 0 2 = Fulfils 300 Null \<and> (300::nat) < 20000"
    by (simp add: rpc_null_def)
  note t = C1_malformed_response_handling[where rpc=rpc_null and k="''goodnet''" and a="''0xREG''" and t=120 and n=2
             and t'=300 and res=Null
             and rc=0 and url="''v1''" and st="initial\<lparr>allAudits := [record_bb]\<rparr>"]
  from t h have a: "try_catch ''goodnet'' ''0xREG'' rpc_null 0 ''v1'' (initial\<lparr>allAudits := [record_bb]\<rparr>) =
     (initial\<lparr>allAudits := [record_bb],
              trace := [LogAttemptRpc ''v1'' 1 maxRetries, Call_getTotalContracts ''v1'' ''0xREG'' 120,
                        LogTotal ''goodnet'' 2, Call_getAllAudits ''v1'' ''0xREG'' 0 2 300,
                        LogError ''goodnet'' (Error ''Invalid response format'')]\<rparr>, Normal)"
    by (simp add: initial_def)
  from try_catch_transient[OF rpc_down_fails, of "''badnet''" "''0xBAD''" 0 "''u1''"
         "initial\<lparr>allAudits := [record_bb]\<rparr>"]
  have b: "snd (try_catch ''badnet'' ''0xBAD'' rpc_down 0 ''u1'' (initial\<lparr>allAudits := [record_bb]\<rparr>)) = Continue"
    by auto
  note u = C1_malformed_response_handling[where rpc=rpc_down and k="''badnet''" and a="''0xBAD''"
             and rc=0 and url="''u1''" and st="initial\<lparr>allAudits := [record_bb]\<rparr>", THEN conjunct2]
  from u b have c: "allAudits (fst (try_catch ''badnet'' ''0xBAD'' rpc_down 0 ''u1'' (initial\<lparr>allAudits := [record_bb]\<rparr>)))
     = [record_bb]"
    by (simp add: initial_def)
  from a b c show ?thesis by (intro conjI)
qed

text \<open>
  C2 as stated fails: on a chain whose two endpoints time out in every round the
  timers awaited add up to 12000 ms, not to \<open>baseDelay * (2 + 4 + 8)\<close> = 28000 ms.
\<close>

theorem C2_counterexample:
  "fails_transiently (world_ex ''badnet'' 0 0) \<and> fails_transiently (world_ex ''badnet'' 0 1) \<and>
   fails_transiently (world_ex ''badnet'' 1 0) \<and> fails_transiently (world_ex ''badnet'' 1 1) \<and>
   fails_transiently (world_ex ''badnet'' 2 0) \<and> fails_transiently (world_ex ''badnet'' 2 1) \<and>
   sleeps (events addrs_ex world_ex chain_bad) = [4000, 8000] \<and>
   sum_list (sleeps (events addrs_ex world_ex chain_bad)) = 12000 \<and>
   baseDelay * (2 + 4 + 8) = 28000 \<and>
   sum_list (sleeps (events addrs_ex world_ex chain_bad)) \<noteq> baseDelay * (2 + 4 + 8)"
proof -
  from events_transient[where addrs=addrs_ex and k="''badnet''" and w=world_ex and cd="snd chain_bad",
         OF addrs_ex_bad world_ex_bad]
  have "sleeps (events addrs_ex world_ex chain_bad) = [baseDelay * 2 ^ 1, baseDelay * 2 ^ 2]"
    by (simp add: chain_bad_eq)
  then have "sleeps (events addrs_ex world_ex chain_bad) = [4000, 8000]"
    by (simp add: baseDelay_def)
  then show ?thesis
    by (simp add: baseDelay_def world_ex_def rpc_down_fails)
qed

text \<open>
  C2, amended. On a chain with an address whose endpoints all fail with a transient error
  in every round, the loop runs exactly three rounds, each attempting every endpoint once
  in order; after the first round it waits \<open>baseDelay * 2 ^ 1\<close> = 4000 ms, after the
  second \<open>baseDelay * 2 ^ 2\<close> = 8000 ms, and after the third it does not wait. The
  chain contributes no record, and the backoff waits add up to \<open>baseDelay * (2 + 4)\<close>
  = 12000 ms.
\<close>

theorem C2_backoff_of_a_failing_chain:
  assumes "addrs k = Some a" "a \<noteq> []"
    and "\<forall>rc<maxRetries. \<forall>i<length (rpcUrls cd). fails_transiently (w k rc i)"
  shows "contribution addrs w (k, cd) = [] \<and>
         (\<exists>e0 e1 e2.
            events addrs w (k, cd) =
              [LogAttemptChain k] @
              e0 @ [LogRetry k (baseDelay * 2 ^ 1), Sleep (baseDelay * 2 ^ 1)] @
              e1 @ [LogRetry k (baseDelay * 2 ^ 2), Sleep (baseDelay * 2 ^ 2)] @
              e2 @ [LogFailed k maxRetries] \<and>
            failed_round (rpcUrls cd) 1 e0 \<and> failed_round (rpcUrls cd) 2 e1 \<and>
            failed_round (rpcUrls cd) 3 e2) \<and>
         sleeps (events addrs w (k, cd)) = [baseDelay * 2 ^ 1, baseDelay * 2 ^ 2] \<and>
         sum_list (sleeps (events addrs w (k, cd))) = baseDelay * (2 + 4) \<and>
         attempts (events addrs w (k, cd)) =
           concat (map (\<lambda>n. map (\<lambda>u. (u, n)) (rpcUrls cd)) [1, 2, 3])"
  using assms by (rule events_transient)

theorem C2_witness:
  "addrs_ex ''badnet'' = Some ''0xBAD'' \<and>
   contribution addrs_ex world_ex chain_bad = [] \<and>
   sum_list (sleeps (events addrs_ex world_ex chain_bad)) = 12000 \<and>
   attempts (events addrs_ex world_ex chain_bad) =
     [(''u1'', 1), (''u2'', 1), (''u1'', 2), (''u2'', 2), (''u1'', 3), (''u2'', 3)]"
proof -
  note t = C2_backoff_of_a_failing_chain[where addrs=addrs_ex and k="''badnet''" and w=world_ex
             and cd="snd chain_bad", OF addrs_ex_bad world_ex_bad, unfolded chain_bad_eq]
  from t have "contribution addrs_ex world_ex chain_bad = []" by blast
  moreover from t have "sum_list (sleeps (events addrs_ex world_ex chain_bad)) = baseDelay * (2 + 4)"
    by blast
  then have "sum_list (sleeps (events addrs_ex world_ex chain_bad)) = 12000"
    by (simp add: baseDelay_def)
  moreover from t have "attempts (events addrs_ex world_ex chain_bad) =
           concat (map (\<lambda>n. map (\<lambda>u. (u, n)) (rpcUrls (snd chain_bad))) [1, 2, 3])"
    by blast
  then have "attempts (events addrs_ex world_ex chain_bad) =
     [(''u1'', 1), (''u2'', 1), (''u1'', 2), (''u2'', 2), (''u1'', 3), (''u2'', 3)]"
    by (simp add: chain_bad_def)
  ultimately show ?thesis using addrs_ex_bad(1) by blast
qed

text \<open>
  C3. Whatever the configuration, the address table and the behaviour of the endpoints,
  \<open>fetchAllChainAudits\<close> completes normally: no error thrown at an endpoint reaches its
  caller. The records it delivers are those that each chain contributes by itself, so
  a chain that fails takes nothing away from the records of the others.
\<close>

theorem C3_no_exception_reaches_caller:
  "snd (fetchAllChainAudits config addrs w) = Normal \<and>
   mset (allAudits (fst (fetchAllChainAudits config addrs w))) =
     mset (concat (map (contribution addrs w) config)) \<and>
   (\<forall>entry\<in>set config.
      set (contribution addrs w entry) \<subseteq> set (allAudits (fst (fetchAllChainAudits config addrs w))))"
  using contribution_in_result[of _ config addrs w]
  by (simp add: fetchAll_Normal fetchAll_allAudits mset_sort_desc)

theorem C3_witness:
  "chain_good \<in> set config_ex \<and>
   snd (fetchAllChainAudits config_ex addrs_ex world_ex) = Normal \<and>
   contribution addrs_ex world_ex chain_bad = [] \<and>
   set [record_aa, record_bb] \<subseteq> set (allAudits (fst (fetchAllChainAudits config_ex addrs_ex world_ex)))"
proof -
  have m: "chain_good \<in> set config_ex" by (simp add: config_ex_def)
  from C3_no_exception_reaches_caller[of config_ex addrs_ex world_ex] m
  have "snd (fetchAllChainAudits config_ex addrs_ex world_ex) = Normal"
    and "set (contribution addrs_ex world_ex chain_good)
         \<subseteq> set (allAudits (fst (fetchAllChainAudits config_ex addrs_ex world_ex)))"
    by blast+
  with m show ?thesis by (simp add: contribution_good contribution_bad)
qed

text \<open>
  C4. The list delivered is the concatenation of the chains' contributions, sorted by
  descending timestamp whichever chain a record came from: it has the same records, and
  of two adjacent records the earlier one has the greater or equal timestamp.
\<close>

theorem C4_result_sorted_by_descending_timestamp:
  "allAudits (fst (fetchAllChainAudits config addrs w)) =
     sort_desc (concat (map (contribution addrs w) config)) \<and>
   mset (allAudits (fst (fetchAllChainAudits config addrs w))) =
     mset (concat (map (contribution addrs w) config)) \<and>
   sorted_wrt (\<lambda>a b. timestamp b \<le> timestamp a) (allAudits (fst (fetchAllChainAudits config addrs w))) \<and>
   (\<forall>i. Suc i < length (allAudits (fst (fetchAllChainAudits config addrs w))) \<longrightarrow>
        timestamp (allAudits (fst (fetchAllChainAudits config addrs w)) ! Suc i)
        \<le> timestamp (allAudits (fst (fetchAllChainAudits config addrs w)) ! i))"
  using sorted_adjacent[OF sort_desc_sorted[of "concat (map (contribution addrs w) config)"]]
  by (simp add: fetchAll_allAudits mset_sort_desc sort_desc_sorted)

theorem C4_witness:
  "Suc 0 < length (allAudits (fst (fetchAllChainAudits config_ex addrs_ex world_ex))) \<and>
   timestamp (allAudits (fst (fetchAllChainAudits config_ex addrs_ex world_ex)) ! Suc 0)
   \<le> timestamp (allAudits (fst (fetchAllChainAudits config_ex addrs_ex world_ex)) ! 0) \<and>
   map timestamp (concat (map (contribution addrs_ex world_ex) config_ex)) = [100, 200] \<and>
   map timestamp (allAudits (fst (fetchAllChainAudits config_ex addrs_ex world_ex))) = [200, 100]"
proof -
  have l: "Suc 0 < length (allAudits (fst (fetchAllChainAudits config_ex addrs_ex world_ex)))"
    by (simp add: result_ex)
  from C4_result_sorted_by_descending_timestamp[of config_ex addrs_ex world_ex] l
  have "timestamp (allAudits (fst (fetchAllChainAudits config_ex addrs_ex world_ex)) ! Suc 0)
   \<le> timestamp (allAudits (fst (fetchAllChainAudits config_ex addrs_ex world_ex)) ! 0)"
    by blast
  moreover have "map timestamp (concat (map (contribution addrs_ex world_ex) config_ex)) = [100, 200]"
    by (simp add: config_ex_def contribution_good contribution_bad contribution_noaddr
                  record_aa_def record_bb_def)
  moreover have "map timestamp (allAudits (fst (fetchAllChainAudits config_ex addrs_ex world_ex))) = [200, 100]"
    by (simp add: result_ex record_aa_def record_bb_def)
  ultimately show ?thesis using l by blast
qed

text \<open>
  C5. When the first endpoint of a chain fulfils the count query (with a count that is
  not zero) and the bulk fetch within their timeouts, and the answer has its five arrays,
  the chain contributes exactly the records of that answer. The trace shows the single
  attempt: one count query, one bulk fetch, a pause of 10 ms after each batch and
  nothing else, so no second endpoint, no retry round and no backoff wait. The batches
  are the consecutive slices of at most 50 hashes; 120 hashes make three batches of 50,
  50 and 20, and every record carries the key of the chain.
\<close>

theorem C5_first_endpoint_success:
  assumes "addrs k = Some a" "a \<noteq> []" "rpcUrls cd = url # rest"
    and "getTotalContracts (w k 0 0) = Fulfils t n" "t < 10000" "n \<noteq> 0"
    and "getAllAudits (w k 0 0) 0 n = Fulfils t' (Obj r)" "t' < 20000"
    and "all_arrays r hs ss ms as ts"
  shows "contribution addrs w (k, cd) = records_of k hs ss ms as ts \<and>
         events addrs w (k, cd) =
           [LogAttemptChain k, LogAttemptRpc url 1 maxRetries, Call_getTotalContracts url a t,
            LogTotal k n, Call_getAllAudits url a 0 n t'] @
           replicate (length (batches hs 0)) (Sleep 10) @ [LogProcessed (length hs) k] \<and>
         attempts (events addrs w (k, cd)) = [(url, 1)] \<and>
         sleeps (events addrs w (k, cd)) = replicate (length (batches hs 0)) 10 \<and>
         for_batches k r hs 0 st = run_batches k r 0 (batches hs 0) st \<and>
         concat (batches hs 0) = hs \<and>
         (length hs = 120 \<longrightarrow> map length (batches hs 0) = [50, 50, 20]) \<and>
         length (records_of k hs ss ms as ts) = common_length hs ss ms as ts \<and>
         (\<forall>x\<in>set (records_of k hs ss ms as ts). chain x = k)"
proof -
  have c: "race (getTotalContracts (w k 0 0)) 10000 ''getTotalContracts timeout'' = (t, Inr n)"
    using assms(4,5) by (simp add: race_Fulfils)
  have b: "race (getAllAudits (w k 0 0) 0 n) 20000 ''getAllAudits timeout'' = (t', Inr (Obj r))"
    using assms(7,8) by (simp add: race_Fulfils)
  note run = chain_body_first_ok[where addrs=addrs and k=k and w=w and st=initial,
                                 OF assms(1,2,3) c assms(6) b assms(9)]
  have con: "contribution addrs w (k, cd) = records_of k hs ss ms as ts"
    using run by (simp add: contribution_def initial_def)
  have ev: "events addrs w (k, cd) =
           [LogAttemptChain k, LogAttemptRpc url 1 maxRetries, Call_getTotalContracts url a t,
            LogTotal k n, Call_getAllAudits url a 0 n t'] @
           replicate (length (batches hs 0)) (Sleep 10) @ [LogProcessed (length hs) k]"
    using run by (simp add: events_def initial_def)
  have at: "attempts (events addrs w (k, cd)) = [(url, 1)]"
    by (simp add: ev attempt_of_def)
  have sl: "sleeps (events addrs w (k, cd)) = replicate (length (batches hs 0)) 10"
    by (simp add: ev delay_of_def)
  from con ev at sl show ?thesis
    by (simp add: for_batches_run concat_batches batches_120 length_records_of records_of_chain)
qed

theorem C5_witness:
  "length (contribution addrs_ex world_120 chain_good) = 120 \<and>
   map length (batches (replicate 120 ''0xaa'') 0) = [50, 50, 20] \<and>
   attempts (events addrs_ex world_120 chain_good) = [(''v1'', 1)] \<and>
   sleeps (events addrs_ex world_120 chain_good) = [10, 10, 10] \<and>
   map chain (contribution addrs_ex world_120 chain_good) = replicate 120 ''goodnet''"
proof -
  have h: "addrs_ex ''goodnet'' = Some ''0xREG''" "''0xREG'' \<noteq> []"
    "rpcUrls (snd chain_good) = ''v1'' # [''v2'']"
    "getTotalContracts (world_120 ''goodnet'' 0 0) = Fulfils 120 120" "(120::nat) < 10000" "(120::nat) \<noteq> 0"
    "getAllAudits (world_120 ''goodnet'' 0 0) 0 120 = Fulfils 300 (Obj response_120)" "(300::nat) < 20000"
    "all_arrays response_120 (replicate 120 ''0xaa'') (replicate 120 5) (replicate 120 ''ok'')
       (replicate 120 ''0xA1'') (replicate 120 100)"
    by (simp_all add: addrs_ex_def chain_good_def world_120_def rpc_120_def all_arrays_def response_120_def)
  note t = C5_first_endpoint_success[where addrs=addrs_ex and k="''goodnet''" and w=world_120
             and cd="snd chain_good" and st=initial, OF h]
  have e: "(''goodnet'', snd chain_good) = chain_good" by (simp add: chain_good_def)
  note t' = t[unfolded e]
  note con = t'[THEN conjunct1]
  note att = t'[THEN conjunct2, THEN conjunct2, THEN conjunct1]
  note sle = t'[THEN conjunct2, THEN conjunct2, THEN conjunct2, THEN conjunct1]
  note bat = t'[THEN conjunct2, THEN conjunct2, THEN conjunct2, THEN conjunct2, THEN conjunct2,
                THEN conjunct2, THEN conjunct1]
  note len = t'[THEN conjunct2, THEN conjunct2, THEN conjunct2, THEN conjunct2, THEN conjunct2,
                THEN conjunct2, THEN conjunct2, THEN conjunct1]
  note tag = t'[THEN conjunct2, THEN conjunct2, THEN conjunct2, THEN conjunct2, THEN conjunct2,
                THEN conjunct2, THEN conjunct2, THEN conjunct2]
  from bat have b: "map length (batches (replicate 120 ''0xaa'') 0) = [50, 50, 20]" by simp
  then have "length (map length (batches (replicate 120 ''0xaa'') 0)) = 3" by simp
  then have n: "length (batches (replicate 120 ''0xaa'') 0) = 3" by simp
  have s: "sleeps (events addrs_ex world_120 chain_good) = [10, 10, 10]"
    unfolding sle n by (simp add: numeral_3_eq_3)
  have l: "length (contribution addrs_ex world_120 chain_good) = 120"
    unfolding con len by (simp add: common_length_def)
  have a: "attempts (events addrs_ex world_120 chain_good) = [(''v1'', 1)]"
    by (rule att)
  have "\<forall>x\<in>set (contribution addrs_ex world_120 chain_good). chain x = ''goodnet''"
    unfolding con by (rule tag)
  with l have c: "map chain (contribution addrs_ex world_120 chain_good) = replicate 120 ''goodnet''"
    by (intro replicate_eqI) auto
  from l b a s c show ?thesis by blast
qed

text \<open>
  C6. In any round, once the endpoints tried before it in that round have failed, an
  endpoint whose count query fulfils with zero ends the fetch of the chain: the loop
  returns with \<open>success\<close> set, having logged the attempt, made the count query and
  logged the count and that there are no contracts. No bulk fetch is made, no further
  endpoint is tried, no retry round or backoff wait follows, and the round has added no
  record. For the chain as a whole: whenever a zero count is logged, the chain
  contributes no record and its trace ends with that attempt.
\<close>

theorem C6_zero_count_ends_the_fetch:
  "(\<not> success st \<and> rc < maxRetries \<and> \<not> success (fst (for_rpcUrls k a w rc 0 before st)) \<and>
    getTotalContracts (w k rc (length before)) = Fulfils t 0 \<and> t < 10000 \<longrightarrow>
      while_retry k a w (before @ url # rest) rc st =
        ((fst (for_rpcUrls k a w rc 0 before st))
           \<lparr>success := True,
            trace := trace (fst (for_rpcUrls k a w rc 0 before st)) @
                     [LogAttemptRpc url (rc + 1) maxRetries, Call_getTotalContracts url a t,
                      LogTotal k 0, LogNoContracts k]\<rparr>, Normal) \<and>
      allAudits (fst (while_retry k a w (before @ url # rest) rc st)) = allAudits st) \<and>
   (LogNoContracts k \<in> set (events addrs w (k, cd)) \<longrightarrow>
      contribution addrs w (k, cd) = [] \<and> zero_tail k (events addrs w (k, cd)))"
proof (intro conjI impI)
  assume h: "\<not> success st \<and> rc < maxRetries \<and> \<not> success (fst (for_rpcUrls k a w rc 0 before st)) \<and>
    getTotalContracts (w k rc (length before)) = Fulfils t 0 \<and> t < 10000"
  obtain st1 c where fr: "for_rpcUrls k a w rc 0 before st = (st1, c)"
    by (cases "for_rpcUrls k a w rc 0 before st")
  with h have ns: "\<not> success st1" by simp
  have z: "race (getTotalContracts (w k rc (length before))) 10000 ''getTotalContracts timeout'' = (t, Inr 0)"
    using h by (simp add: race_Fulfils)
  have u: "allAudits st1 = allAudits st"
    using for_rpcUrls_unsuccessful_unchanged[of k a w rc 0 before st] h fr by simp
  from h have h12: "\<not> success st" "rc < maxRetries" by simp_all
  note run = while_retry_count_zero[where url=url and rest=rest, OF h12 fr ns z]
  from run fr show "while_retry k a w (before @ url # rest) rc st =
        ((fst (for_rpcUrls k a w rc 0 before st))
           \<lparr>success := True,
            trace := trace (fst (for_rpcUrls k a w rc 0 before st)) @
                     [LogAttemptRpc url (rc + 1) maxRetries, Call_getTotalContracts url a t,
                      LogTotal k 0, LogNoContracts k]\<rparr>, Normal)"
    by simp
  from run u show "allAudits (fst (while_retry k a w (before @ url # rest) rc st)) = allAudits st"
    by simp
next
  assume "LogNoContracts k \<in> set (events addrs w (k, cd))"
  from events_zero[OF this] show "contribution addrs w (k, cd) = []"
    and "zero_tail k (events addrs w (k, cd))" by simp_all
qed

theorem C6_witness:
  "events addrs_ex world_empty chain_good =
     [LogAttemptChain ''goodnet'',
      LogAttemptRpc ''v1'' 1 maxRetries, Call_getTotalContracts ''v1'' ''0xREG'' 10000,
      WarnRpcFailed ''v1'' ''getTotalContracts timeout'',
      LogAttemptRpc ''v2'' 1 maxRetries, Call_getTotalContracts ''v2'' ''0xREG'' 80,
      LogTotal ''goodnet'' 0, LogNoContracts ''goodnet''] \<and>
   contribution addrs_ex world_empty chain_good = []"
proof -
  let ?s0 = "\<lparr>allAudits = [], success = False, trace = [LogAttemptChain ''goodnet'']\<rparr>"
  let ?s1 = "\<lparr>allAudits = [], success = False,
              trace = [LogAttemptChain ''goodnet'', LogAttemptRpc ''v1'' 1 maxRetries,
                       Call_getTotalContracts ''v1'' ''0xREG'' 10000,
                       WarnRpcFailed ''v1'' ''getTotalContracts timeout'']\<rparr>"
  have tc: "isRpcError (Error ''getTotalContracts timeout'')"
    by (simp add: isRpcError_def Error_def startsWith_def)
  have f: "for_rpcUrls ''goodnet'' ''0xREG'' world_empty 0 0 [''v1''] ?s0 = (?s1, Normal)"
    using tc by (simp add: try_catch_def try_body_def world_empty_def rpc_down_def race_def emit_def
                  Error_def)
  have h: "\<not> success ?s0 \<and> 0 < maxRetries \<and>
           \<not> success (fst (for_rpcUrls ''goodnet'' ''0xREG'' world_empty 0 0 [''v1''] ?s0)) \<and>
           getTotalContracts (world_empty ''goodnet'' 0 (length [''v1''])) = Fulfils 80 0 \<and> (80::nat) < 10000"
    unfolding f by (simp add: maxRetries_def world_empty_def rpc_empty_def)
  note t = C6_zero_count_ends_the_fetch[where st="?s0" and rc=0 and k="''goodnet''" and a="''0xREG''"
         and w=world_empty and before="[''v1'']" and url="''v2''" and rest="[]" and t=80
         and addrs=addrs_ex and cd="snd chain_good"]
  from t h have "while_retry ''goodnet'' ''0xREG'' world_empty ([''v1''] @ ''v2'' # []) 0 ?s0 =
        ((fst (for_rpcUrls ''goodnet'' ''0xREG'' world_empty 0 0 [''v1''] ?s0))
           \<lparr>success := True,
            trace := trace (fst (for_rpcUrls ''goodnet'' ''0xREG'' world_empty 0 0 [''v1''] ?s0)) @
                     [LogAttemptRpc ''v2'' (0 + 1) maxRetries, Call_getTotalContracts ''v2'' ''0xREG'' 80,
                      LogTotal ''goodnet'' 0, LogNoContracts ''goodnet'']\<rparr>, Normal)"
    by blast
  then have w: "while_retry ''goodnet'' ''0xREG'' world_empty [''v1'', ''v2''] 0 ?s0 =
        (?s1\<lparr>success := True,
            trace := trace ?s1 @
                     [LogAttemptRpc ''v2'' 1 maxRetries, Call_getTotalContracts ''v2'' ''0xREG'' 80,
                      LogTotal ''goodnet'' 0, LogNoContracts ''goodnet'']\<rparr>, Normal)"
    unfolding f by simp
  have e: "events addrs_ex world_empty chain_good =
     [LogAttemptChain ''goodnet'',
      LogAttemptRpc ''v1'' 1 maxRetries, Call_getTotalContracts ''v1'' ''0xREG'' 10000,
      WarnRpcFailed ''v1'' ''getTotalContracts timeout'',
      LogAttemptRpc ''v2'' 1 maxRetries, Call_getTotalContracts ''v2'' ''0xREG'' 80,
      LogTotal ''goodnet'' 0, LogNoContracts ''goodnet'']"
    using w by (simp add: events_def chain_body_def chain_good_def addrs_ex_def emit_def initial_def
                          Let_def)
  have g: "(''goodnet'', snd chain_good) = chain_good" by (simp add: chain_good_def)
  have "LogNoContracts ''goodnet'' \<in> set (events addrs_ex world_empty chain_good)"
    unfolding e by simp
  with t[unfolded g] have "contribution addrs_ex world_empty chain_good = []" by blast
  with e show ?thesis by blast
qed

text \<open>
  C7. Every record that a chain contributes carries the key of that chain, and it is in
  the delivered list with that key; conversely every delivered record is a record that
  the chain named in it contributed. Merging and sorting keep the records as they are.
\<close>

theorem C7_network_attribution_preserved:
  "mset (allAudits (fst (fetchAllChainAudits config addrs w))) =
     mset (concat (map (contribution addrs w) config)) \<and>
   (\<forall>entry\<in>set config. \<forall>r\<in>set (contribution addrs w entry).
      chain r = fst entry \<and> r \<in> set (allAudits (fst (fetchAllChainAudits config addrs w)))) \<and>
   (\<forall>r\<in>set (allAudits (fst (fetchAllChainAudits config addrs w))).
      \<exists>entry\<in>set config. chain r = fst entry \<and> r \<in> set (contribution addrs w entry))"
proof -
  let ?R = "allAudits (fst (fetchAllChainAudits config addrs w))"
  have m: "mset ?R = mset (concat (map (contribution addrs w) config))"
    by (simp add: fetchAll_allAudits mset_sort_desc)
  then have s: "set ?R = set (concat (map (contribution addrs w) config))"
    by (metis set_mset_mset)
  have t: "chain r = fst entry" if "r \<in> set (contribution addrs w entry)" for r entry
    using that contribution_tagged[of r addrs w "fst entry" "snd entry"] by simp
  from m s t show ?thesis by auto
qed

theorem C7_witness:
  "chain_good \<in> set config_ex \<and> record_bb \<in> set (contribution addrs_ex world_ex chain_good) \<and>
   chain record_bb = ''goodnet'' \<and>
   record_bb \<in> set (allAudits (fst (fetchAllChainAudits config_ex addrs_ex world_ex)))"
proof -
  have m: "chain_good \<in> set config_ex" by (simp add: config_ex_def)
  have r: "record_bb \<in> set (contribution addrs_ex world_ex chain_good)"
    by (simp add: contribution_good)
  from C7_network_attribution_preserved[of config_ex addrs_ex world_ex] m r
  have "chain record_bb = fst chain_good \<and>
        record_bb \<in> set (allAudits (fst (fetchAllChainAudits config_ex addrs_ex world_ex)))"
    by blast
  with m r show ?thesis by (simp add: chain_good_def)
qed

text \<open>
  C8. The fetch of the profile page, which is given the address of the connected
  wallet, retains exactly the records whose auditor equals that address up to case, in
  the order they have in the unfiltered list; a retained record is the unfiltered one
  without its auditor. This holds for the callback loop over a batch, against the same
  loop of the reports page, which has no identity test; for the records accumulated over
  all chains; and for the list after sorting, of which the page shows the first five and
  reports the length.
\<close>

theorem C8_identity_filter_keeps_matching_records_in_order:
  "allAudits_u (fst (forEach_user userAddress chainKey r i idx batch initial_user)) =
     map userAudit_of
       (filter (\<lambda>a. toLowerCase (auditor a) = toLowerCase userAddress)
          (allAudits (fst (forEach chainKey r i idx batch initial)))) \<and>
   allAudits_u (fst (for_chains_user userAddress addrs w config initial_user)) =
     map userAudit_of
       (filter (\<lambda>a. toLowerCase (auditor a) = toLowerCase userAddress)
          (allAudits (fst (for_chains addrs w config initial)))) \<and>
   allAudits_u (fst (fetchUserStats userAddress config addrs w)) =
     map userAudit_of
       (filter (\<lambda>a. toLowerCase (auditor a) = toLowerCase userAddress)
          (allAudits (fst (fetchAllChainAudits config addrs w)))) \<and>
   map_option recentAudits (fst (snd (fetchUserStats userAddress config addrs w))) =
     Some (take 5 (map userAudit_of
       (filter (\<lambda>a. toLowerCase (auditor a) = toLowerCase userAddress)
          (allAudits (fst (fetchAllChainAudits config addrs w)))))) \<and>
   map_option totalAudits (fst (snd (fetchUserStats userAddress config addrs w))) =
     Some (length (filter (\<lambda>a. toLowerCase (auditor a) = toLowerCase userAddress)
          (allAudits (fst (fetchAllChainAudits config addrs w))))) \<and>
   subseq (allAudits_u (fst (fetchUserStats userAddress config addrs w)))
          (map userAudit_of (allAudits (fst (fetchAllChainAudits config addrs w))))"
proof (intro conjI)
  show "allAudits_u (fst (forEach_user userAddress chainKey r i idx batch initial_user)) =
     map userAudit_of
       (filter (\<lambda>a. toLowerCase (auditor a) = toLowerCase userAddress)
          (allAudits (fst (forEach chainKey r i idx batch initial))))"
    using forEach_user_retained[of userAddress chainKey r i idx batch] by (simp add: retained_def)
  show "allAudits_u (fst (for_chains_user userAddress addrs w config initial_user)) =
     map userAudit_of
       (filter (\<lambda>a. toLowerCase (auditor a) = toLowerCase userAddress)
          (allAudits (fst (for_chains addrs w config initial))))"
    using for_chains_user_retained[of userAddress addrs w config] by (simp add: retained_def)
  show e: "allAudits_u (fst (fetchUserStats userAddress config addrs w)) =
     map userAudit_of
       (filter (\<lambda>a. toLowerCase (auditor a) = toLowerCase userAddress)
          (allAudits (fst (fetchAllChainAudits config addrs w))))"
    using fetchUserStats_retained[of userAddress config addrs w] by (simp add: retained_def)
  show "map_option recentAudits (fst (snd (fetchUserStats userAddress config addrs w))) =
     Some (take 5 (map userAudit_of
       (filter (\<lambda>a. toLowerCase (auditor a) = toLowerCase userAddress)
          (allAudits (fst (fetchAllChainAudits config addrs w))))))"
    using fetchUserStats_stats(1)[of userAddress config addrs w] by (simp add: retained_def)
  show "map_option totalAudits (fst (snd (fetchUserStats userAddress config addrs w))) =
     Some (length (filter (\<lambda>a. toLowerCase (auditor a) = toLowerCase userAddress)
          (allAudits (fst (fetchAllChainAudits config addrs w)))))"
    using fetchUserStats_stats(2)[of userAddress config addrs w] by (simp add: retained_def)
  show "subseq (allAudits_u (fst (fetchUserStats userAddress config addrs w)))
          (map userAudit_of (allAudits (fst (fetchAllChainAudits config addrs w))))"
    unfolding e by (intro subseq_map subseq_filter_left)
qed

theorem C8_witness:
  "allAudits_u (fst (forEach_user ''0xA1'' ''goodnet'' response_three 0 0 [''0xaa'', ''0xbb'', ''0xcc'']
                       initial_user)) =
     [\<lparr>contractHash_u = ''0xaa'', stars_u = 5, summary_u = ''ok'', timestamp_u = 100,
       chain_u = ''goodnet''\<rparr>,
      \<lparr>contractHash_u = ''0xcc'', stars_u = 4, summary_u = ''fine'', timestamp_u = 300,
       chain_u = ''goodnet''\<rparr>] \<and>
   allAudits_u (fst (fetchUserStats ''0xb2'' config_ex addrs_ex world_ex)) = [userAudit_of record_bb] \<and>
   map_option recentAudits (fst (snd (fetchUserStats ''0xb2'' config_ex addrs_ex world_ex))) =
     Some [userAudit_of record_bb] \<and>
   map_option totalAudits (fst (snd (fetchUserStats ''0xb2'' config_ex addrs_ex world_ex))) = Some 1"
proof -
  note t = C8_identity_filter_keeps_matching_records_in_order[of "''0xA1''" "''goodnet''" response_three
             0 0 "[''0xaa'', ''0xbb'', ''0xcc'']" addrs_ex world_ex config_ex]
  note s = C8_identity_filter_keeps_matching_records_in_order[of "''0xb2''" "''goodnet''" response_three
             0 0 "[]" addrs_ex world_ex config_ex]
  have a: "allAudits_u (fst (forEach_user ''0xA1'' ''goodnet'' response_three 0 0 [''0xaa'', ''0xbb'', ''0xcc'']
                       initial_user)) =
     [\<lparr>contractHash_u = ''0xaa'', stars_u = 5, summary_u = ''ok'', timestamp_u = 100,
       chain_u = ''goodnet''\<rparr>,
      \<lparr>contractHash_u = ''0xcc'', stars_u = 4, summary_u = ''fine'', timestamp_u = 300,
       chain_u = ''goodnet''\<rparr>]"
    using t[THEN conjunct1, unfolded forEach_three]
    by (simp only: lower_identities userAudit_of_def filter.simps list.map AuditReport.simps
          list.inject char.inject simp_thms if_True if_False)
  have f: "filter (\<lambda>a. toLowerCase (auditor a) = toLowerCase ''0xb2'') [record_bb, record_aa] = [record_bb]"
    by (simp add: record_aa_def record_bb_def lower_identities)
  have b: "allAudits_u (fst (fetchUserStats ''0xb2'' config_ex addrs_ex world_ex)) = [userAudit_of record_bb]"
    using s[THEN conjunct2, THEN conjunct2, THEN conjunct1] by (simp only: result_ex f list.map)
  have c: "map_option recentAudits (fst (snd (fetchUserStats ''0xb2'' config_ex addrs_ex world_ex))) =
     Some [userAudit_of record_bb]"
    using s[THEN conjunct2, THEN conjunct2, THEN conjunct2, THEN conjunct1, unfolded result_ex f]
    by simp
  have d: "map_option totalAudits (fst (snd (fetchUserStats ''0xb2'' config_ex addrs_ex world_ex))) = Some 1"
    using s[THEN conjunct2, THEN conjunct2, THEN conjunct2, THEN conjunct2, THEN conjunct1,
            unfolded result_ex f]
    by simp
  from a b c d show ?thesis by (intro conjI)
qed

text \<open>
  C9. The fetch of a chain always returns. Its endpoint attempts are those of at most
  \<open>maxRetries\<close> = 3 rounds, numbered from 1; each round attempts endpoints of the chain
  one after the other in the order of \<open>rpcUrls\<close>, starting with the first, so there are
  at most 3 attempts per endpoint. Every count query is awaited for at most 10000 ms and
  every bulk fetch for at most 20000 ms.
\<close>

theorem C9_fetch_of_a_chain_is_bounded:
  "(snd (chain_body addrs w (k, cd) st) = Normal \<or> snd (chain_body addrs w (k, cd) st) = Continue) \<and>
   trace (fst (chain_body addrs w (k, cd) st)) = trace st @ events addrs w (k, cd) \<and>
   (\<exists>ns. length ns \<le> maxRetries \<and> list_all (\<lambda>m. m \<le> length (rpcUrls cd)) ns \<and>
         attempts (events addrs w (k, cd)) = rounds (rpcUrls cd) 1 ns) \<and>
   length (attempts (events addrs w (k, cd))) \<le> maxRetries * length (rpcUrls cd) \<and>
   list_all wait_bounded (events addrs w (k, cd)) \<and>
   maxRetries = 3"
proof -
  from events_shape[of cd addrs w k] obtain ns where
    ns: "length ns \<le> maxRetries" "list_all (\<lambda>m. m \<le> length (rpcUrls cd)) ns"
      "attempts (events addrs w (k, cd)) = rounds (rpcUrls cd) 1 ns"
    and wb: "list_all wait_bounded (events addrs w (k, cd))" by blast
  have "length (attempts (events addrs w (k, cd))) \<le> length ns * length (rpcUrls cd)"
    unfolding ns(3) using ns(2) by (rule length_rounds)
  also have "\<dots> \<le> maxRetries * length (rpcUrls cd)"
    using ns(1) by simp
  finally have l: "length (attempts (events addrs w (k, cd))) \<le> maxRetries * length (rpcUrls cd)" .
  from ns wb l chain_body_completion[of addrs w "(k, cd)" st] chain_body_trace[of addrs w "(k, cd)" st]
  show ?thesis by (auto simp add: maxRetries_def)
qed

theorem C9_witness:
  "list_all wait_bounded (events addrs_ex world_ex chain_bad) \<and>
   length (attempts (events addrs_ex world_ex chain_bad)) \<le> 3 * length (rpcUrls (snd chain_bad)) \<and>
   snd (chain_body addrs_ex world_ex chain_bad initial) = Normal"
proof -
  note t = C9_fetch_of_a_chain_is_bounded[of addrs_ex world_ex "''badnet''" "snd chain_bad" initial,
             unfolded chain_bad_eq]
  from t have "list_all wait_bounded (events addrs_ex world_ex chain_bad)" by blast
  moreover from t have "length (attempts (events addrs_ex world_ex chain_bad))
                        \<le> maxRetries * length (rpcUrls (snd chain_bad))" by blast
  then have "length (attempts (events addrs_ex world_ex chain_bad)) \<le> 3 * length (rpcUrls (snd chain_bad))"
    by (simp add: maxRetries_def)
  moreover have "snd (chain_body addrs_ex world_ex chain_bad initial) = Normal"
    using chain_body_transient[where addrs=addrs_ex and k="''badnet''" and w=world_ex and st=initial
            and cd="snd chain_bad", OF addrs_ex_bad world_ex_bad]
    by (auto simp add: chain_bad_eq)
  ultimately show ?thesis by blast
qed

text \<open>
  C10. For a chain whose registry address is missing from the address table (or is the
  empty string), the loop body only logs that the chain is skipped: no endpoint is tried,
  no call is made, no timer is awaited and no record is added. The other chains are
  processed as if the chain were not configured: the delivered records are the same, and
  the trace differs by the two log lines only.
\<close>

theorem C10_chain_without_address_is_skipped:
  assumes "addrs k = None \<or> addrs k = Some []"
  shows "chain_body addrs w (k, cd) st =
           (st\<lparr>trace := trace st @ [LogAttemptChain k, LogNoAddress k]\<rparr>, Continue) \<and>
         contribution addrs w (k, cd) = [] \<and>
         events addrs w (k, cd) = [LogAttemptChain k, LogNoAddress k] \<and>
         allAudits (fst (fetchAllChainAudits (before @ (k, cd) # after) addrs w)) =
           allAudits (fst (fetchAllChainAudits (before @ after) addrs w)) \<and>
         trace (fst (fetchAllChainAudits (before @ (k, cd) # after) addrs w)) =
           concat (map (events addrs w) before) @ [LogAttemptChain k, LogNoAddress k] @
           concat (map (events addrs w) after)"
proof -
  note skip = chain_body_no_address[of addrs k, OF assms]
  have c: "contribution addrs w (k, cd) = []"
    using skip[of w cd initial] by (simp add: contribution_def initial_def)
  have e: "events addrs w (k, cd) = [LogAttemptChain k, LogNoAddress k]"
    using skip[of w cd initial] by (simp add: events_def initial_def)
  from c e skip[of w cd st] show ?thesis
    by (simp add: fetchAll_allAudits fetchAll_trace)
qed

theorem C10_witness:
  "(addrs_ex ''noaddr'' = None \<or> addrs_ex ''noaddr'' = Some []) \<and>
   events addrs_ex world_ex chain_noaddr = [LogAttemptChain ''noaddr'', LogNoAddress ''noaddr''] \<and>
   contribution addrs_ex world_ex chain_noaddr = [] \<and>
   allAudits (fst (fetchAllChainAudits ([chain_bad, chain_good] @ chain_noaddr # []) addrs_ex world_ex)) =
   allAudits (fst (fetchAllChainAudits ([chain_bad, chain_good] @ []) addrs_ex world_ex))"
proof -
  have h: "addrs_ex ''noaddr'' = None \<or> addrs_ex ''noaddr'' = Some []"
    by (simp add: addrs_ex_def)
  from C10_chain_without_address_is_skipped[of addrs_ex "''noaddr''" world_ex "snd chain_noaddr" initial
         "[chain_bad, chain_good]" "[]", OF h] h
  show ?thesis by (simp add: chain_noaddr_def)
qed

end
